theory Spec2Isabelle
  imports Complex_Main "HOL-Library.Multiset" "HOL-Library.Sublist" "HOL-Library.AList"
begin

section \<open>The landmark shard descriptor: a shallow embedding\<close>

text \<open>
  The source is \<^verbatim>\<open>landmark_shard_descriptor.py\<close>: a dataset class
  (\<^verbatim>\<open>LandmarkShardDataset\<close>) that lists the image files of a directory, keeps every
  \<open>worldsize\<close>-th of them starting at position \<open>rank - 1\<close> and shuffles them, and a
  descriptor class (\<^verbatim>\<open>LandmarkShardDescriptor\<close>) that downloads and converts the data
  and guards it with a manifest of checksums.

  Exceptions are values of \<open>error\<close>; a function that can raise returns \<open>error + 'a\<close>.
  The file system is a tree of named entries; the working directory is part of the state.
  Library code the source calls and that is not part of the repository (MD5, JSON, the
  \<^verbatim>\<open>.npy\<close> format, the CSV reader, the Kaggle client, the zip reader, \<^verbatim>\<open>int()\<close>,
  the random generator) is a parameter: a field of the record \<open>env\<close> or an argument.
\<close>

subsection \<open>Exceptions\<close>

datatype error = ValueError | IndexError | KeyError | AttributeError | AssertionError
  | FileNotFoundError | FileExistsError | NotADirectoryError | IsADirectoryError
  | JSONDecodeError | ApiError | BadZipFile

fun and_then :: "error + 'a \<Rightarrow> ('a \<Rightarrow> error + 'b) \<Rightarrow> error + 'b" where
  "and_then (Inl e) f = Inl e"
| "and_then (Inr x) f = f x"

subsection \<open>Python lists: slices with a step, indexing, shuffle\<close>

text \<open>
  \<^verbatim>\<open>xs[start::step]\<close> as CPython computes it: the start is adjusted to the length, the
  omitted stop is the length (or the position before the first element for a negative
  step), and the slice has \<open>slice_len\<close> elements, the \<open>k\<close>-th at \<open>start + k * step\<close>.
  A step of zero raises \<^verbatim>\<open>ValueError\<close>.
\<close>

definition slice_start :: "int \<Rightarrow> int \<Rightarrow> int \<Rightarrow> int" where
  "slice_start n start step =
     (if start < 0
      then (if start + n < 0 then (if step < 0 then - 1 else 0) else start + n)
      else if n \<le> start then (if step < 0 then n - 1 else n) else start)"

definition slice_stop :: "int \<Rightarrow> int \<Rightarrow> int" where
  "slice_stop n step = (if step < 0 then - 1 else n)"

definition slice_len :: "int \<Rightarrow> int \<Rightarrow> int \<Rightarrow> nat" where
  "slice_len start stop step =
     (if step < 0
      then (if stop < start then nat ((start - stop - 1) div (- step) + 1) else 0)
      else (if start < stop then nat ((stop - start - 1) div step + 1) else 0))"

definition getslice_from :: "'a list \<Rightarrow> int \<Rightarrow> int \<Rightarrow> error + 'a list" where
  "getslice_from xs start step =
     (if step = 0 then Inl ValueError
      else let n = int (length xs); s = slice_start n start step; e = slice_stop n step
           in Inr (map (\<lambda>k. xs ! nat (s + int k * step)) [0..<slice_len s e step]))"

text \<open>\<^verbatim>\<open>xs[index]\<close>: a negative index counts from the end; out of range raises.\<close>

definition list_getitem :: "'a list \<Rightarrow> int \<Rightarrow> error + 'a" where
  "list_getitem xs index =
     (let n = int (length xs); j = (if index < 0 then index + n else index)
      in if 0 \<le> j \<and> j < n then Inr (xs ! nat j) else Inl IndexError)"

text \<open>
  \<^verbatim>\<open>random.shuffle\<close>: for \<open>i\<close> from \<open>len - 1\<close> down to \<open>1\<close>, exchange \<open>x[i]\<close> with
  \<open>x[j]\<close>, \<open>j = randbelow(i + 1)\<close>. The generator is the argument \<open>rng\<close>: \<open>rng i\<close> is
  the number drawn in round \<open>i\<close>, reduced into the range \<open>0 .. i\<close>.
\<close>

definition swap :: "'a list \<Rightarrow> nat \<Rightarrow> nat \<Rightarrow> 'a list" where
  "swap xs i j = xs[i := xs ! j, j := xs ! i]"

fun shuffle_from :: "(nat \<Rightarrow> nat) \<Rightarrow> nat \<Rightarrow> 'a list \<Rightarrow> 'a list" where
  "shuffle_from rng 0 xs = xs"
| "shuffle_from rng (Suc i) xs = shuffle_from rng i (swap xs (Suc i) (rng (Suc i) mod (Suc i + 1)))"

definition shuffle :: "(nat \<Rightarrow> nat) \<Rightarrow> 'a list \<Rightarrow> 'a list" where
  "shuffle rng xs = shuffle_from rng (length xs - 1) xs"

subsection \<open>Python strings\<close>

text \<open>\<^verbatim>\<open>s.split(sep)\<close> for a one-character separator: empty tokens are kept.\<close>

fun split_sep :: "char \<Rightarrow> string \<Rightarrow> string list" where
  "split_sep sep [] = [[]]"
| "split_sep sep (c # cs) =
     (if c = sep then [] # split_sep sep cs
      else (case split_sep sep cs of [] \<Rightarrow> [[c]] | t # ts \<Rightarrow> (c # t) # ts))"

fun join_sep :: "char \<Rightarrow> string list \<Rightarrow> string" where
  "join_sep sep [] = []"
| "join_sep sep [x] = x"
| "join_sep sep (x # y # zs) = x @ sep # join_sep sep (y # zs)"

text \<open>\<^verbatim>\<open>s.replace(old, new)\<close>: every occurrence, left to right, without overlap.\<close>

fun str_replace :: "string \<Rightarrow> string \<Rightarrow> string \<Rightarrow> string" where
  "str_replace old new [] = (if old = [] then new else [])"
| "str_replace old new (c # cs) =
     (if old = [] then new @ c # str_replace old new cs
      else if prefix old (c # cs) then new @ str_replace old new (drop (length old - 1) cs)
      else c # str_replace old new cs)"

text \<open>\<^verbatim>\<open>str(n)\<close> for a natural number.\<close>

definition digit_char :: "nat \<Rightarrow> char" where
  "digit_char n = char_of (48 + n)"

fun str_nat :: "nat \<Rightarrow> string" where
  "str_nat n = (if n < 10 then [digit_char n] else str_nat (n div 10) @ [digit_char (n mod 10)])"

declare str_nat.simps [simp del]

subsection \<open>Paths\<close>

text \<open>
  A \<^verbatim>\<open>pathlib\<close> path: anchored at the root or not, and its components. Parsing a
  string drops empty components and \<^verbatim>\<open>.\<close>; joining with an anchored path gives that
  path. \<^verbatim>\<open>..\<close> and symbolic links are not interpreted.
\<close>

datatype path = Path (anchored: bool) (parts: "string list")

definition path_of_str :: "string \<Rightarrow> path" where
  "path_of_str s =
     Path (take 1 s = ''/'') (filter (\<lambda>c. c \<noteq> [] \<and> c \<noteq> ''.'') (split_sep CHR ''/'' s))"

definition path_str :: "path \<Rightarrow> string" where
  "path_str p =
     (if anchored p then CHR ''/'' # join_sep CHR ''/'' (parts p)
      else if parts p = [] then ''.'' else join_sep CHR ''/'' (parts p))"

definition path_join :: "path \<Rightarrow> path \<Rightarrow> path" where
  "path_join p q = (if anchored q then q else Path (anchored p) (parts p @ parts q))"

definition path_join_str :: "path \<Rightarrow> string \<Rightarrow> path" where
  "path_join_str p s = path_join p (path_of_str s)"

text \<open>\<^verbatim>\<open>p.relative_to(q)\<close>: the components of \<open>p\<close> after those of \<open>q\<close>, or \<^verbatim>\<open>ValueError\<close>.\<close>

definition relative_to :: "path \<Rightarrow> path \<Rightarrow> error + path" where
  "relative_to p q =
     (if anchored p = anchored q \<and> prefix (parts q) (parts p)
      then Inr (Path False (drop (length (parts q)) (parts p)))
      else Inl ValueError)"

text \<open>\<^verbatim>\<open>os.path.join(a, b)\<close> and \<^verbatim>\<open>os.path.relpath(p, start)\<close> on absolute paths.\<close>

definition os_path_join :: "string \<Rightarrow> string \<Rightarrow> string" where
  "os_path_join a b =
     (if take 1 b = ''/'' then b
      else if a = [] \<or> last a = CHR ''/'' then a @ b
      else a @ CHR ''/'' # b)"

definition relpath :: "string list \<Rightarrow> string list \<Rightarrow> string" where
  "relpath p start =
     (let i = length (longest_common_prefix start p);
          rel = replicate (length start - i) ''..'' @ drop i p
      in if rel = [] then ''.'' else join_sep CHR ''/'' rel)"

subsection \<open>The file system\<close>

text \<open>
  A directory is the list of its entries in listing order. The state holds the tree
  from the root, the working directory, and a trace of the calls made to the external
  collaborators (the Kaggle client, the zip reader, the converter).
\<close>

datatype node = File string | Dir "(string \<times> node) list"

datatype event = Authenticated | Downloaded | Extracted | Converted

record state =
  root :: node
  cwd :: "string list"
  trace :: "event list"

definition abs_parts :: "state \<Rightarrow> path \<Rightarrow> string list" where
  "abs_parts st p = (if anchored p then parts p else cwd st @ parts p)"

fun resolve :: "node \<Rightarrow> string list \<Rightarrow> error + node" where
  "resolve n [] = Inr n"
| "resolve (File c) (x # xs) = Inl NotADirectoryError"
| "resolve (Dir es) (x # xs) =
     (case map_of es x of None \<Rightarrow> Inl FileNotFoundError | Some n \<Rightarrow> resolve n xs)"

text \<open>
  \<open>alter mk f xs n\<close> changes the entry at path \<open>xs\<close> below \<open>n\<close>: \<open>f\<close> gets the entry
  (\<open>None\<close> when there is none) and gives the new one (\<open>None\<close> removes it) or raises.
  With \<open>mk\<close>, missing directories on the way are created.
\<close>

fun alter :: "bool \<Rightarrow> (node option \<Rightarrow> error + node option) \<Rightarrow> string list \<Rightarrow> node \<Rightarrow> error + node" where
  "alter mk f [] n =
     (case f (Some n) of Inl e \<Rightarrow> Inl e | Inr None \<Rightarrow> Inl IsADirectoryError | Inr (Some n') \<Rightarrow> Inr n')"
| "alter mk f (x # xs) (File c) = Inl NotADirectoryError"
| "alter mk f [x] (Dir es) =
     (case f (map_of es x) of
        Inl e \<Rightarrow> Inl e
      | Inr None \<Rightarrow> Inr (Dir (AList.delete x es))
      | Inr (Some n) \<Rightarrow> Inr (Dir (AList.update x n es)))"
| "alter mk f (x # y # ys) (Dir es) =
     (case map_of es x of
        None \<Rightarrow>
          (if mk
           then (case alter mk f (y # ys) (Dir []) of
                   Inl e \<Rightarrow> Inl e
                 | Inr n' \<Rightarrow> Inr (Dir (AList.update x n' es)))
           else Inl FileNotFoundError)
      | Some n \<Rightarrow>
          (case alter mk f (y # ys) n of
             Inl e \<Rightarrow> Inl e
           | Inr n' \<Rightarrow> Inr (Dir (AList.update x n' es))))"

fun write_op :: "string \<Rightarrow> node option \<Rightarrow> error + node option" where
  "write_op c None = Inr (Some (File c))"
| "write_op c (Some (File old)) = Inr (Some (File c))"
| "write_op c (Some (Dir es)) = Inl IsADirectoryError"

fun mkdir_op :: "node option \<Rightarrow> error + node option" where
  "mkdir_op None = Inr (Some (Dir []))"
| "mkdir_op (Some n) = Inl FileExistsError"

fun ensure_dir_op :: "node option \<Rightarrow> error + node option" where
  "ensure_dir_op None = Inr (Some (Dir []))"
| "ensure_dir_op (Some (Dir es)) = Inr (Some (Dir es))"
| "ensure_dir_op (Some (File c)) = Inl FileExistsError"

fun remove_op :: "node option \<Rightarrow> error + node option" where
  "remove_op None = Inl FileNotFoundError"
| "remove_op (Some (File c)) = Inr None"
| "remove_op (Some (Dir es)) = Inl IsADirectoryError"

fun rmtree_op :: "node option \<Rightarrow> error + node option" where
  "rmtree_op None = Inl FileNotFoundError"
| "rmtree_op (Some (File c)) = Inl NotADirectoryError"
| "rmtree_op (Some (Dir es)) = Inr None"

definition fs_alter :: "bool \<Rightarrow> (node option \<Rightarrow> error + node option) \<Rightarrow> state \<Rightarrow> path \<Rightarrow> error + state" where
  "fs_alter mk f st p =
     (case alter mk f (abs_parts st p) (root st) of
        Inl e \<Rightarrow> Inl e
      | Inr r \<Rightarrow> Inr (st\<lparr>root := r\<rparr>))"

definition os_path_exists :: "state \<Rightarrow> path \<Rightarrow> bool" where
  "os_path_exists st p = (case resolve (root st) (abs_parts st p) of Inl e \<Rightarrow> False | Inr n \<Rightarrow> True)"

definition os_mkdir :: "state \<Rightarrow> path \<Rightarrow> error + state" where
  "os_mkdir st p = fs_alter False mkdir_op st p"

definition os_remove :: "state \<Rightarrow> path \<Rightarrow> error + state" where
  "os_remove st p = fs_alter False remove_op st p"

definition shutil_rmtree :: "state \<Rightarrow> path \<Rightarrow> error + state" where
  "shutil_rmtree st p = fs_alter False rmtree_op st p"

definition write_file :: "state \<Rightarrow> path \<Rightarrow> string \<Rightarrow> error + state" where
  "write_file st p content = fs_alter False (write_op content) st p"

definition read_file :: "state \<Rightarrow> path \<Rightarrow> error + string" where
  "read_file st p =
     (case resolve (root st) (abs_parts st p) of
        Inl e \<Rightarrow> Inl e
      | Inr (File c) \<Rightarrow> Inr c
      | Inr (Dir es) \<Rightarrow> Inl IsADirectoryError)"

fun is_dir :: "node \<Rightarrow> bool" where
  "is_dir (Dir es) = True"
| "is_dir (File c) = False"

text \<open>
  \<^verbatim>\<open>os.walk(top)\<close>, top down: the directory itself with the names of its
  subdirectories and of its files, then each subdirectory in listing order. Something
  that is not a directory yields nothing.
\<close>

fun os_walk :: "string list \<Rightarrow> node \<Rightarrow> (string list \<times> string list \<times> string list) list"
  and os_walk_dirs :: "string list \<Rightarrow> (string \<times> node) list \<Rightarrow> (string list \<times> string list \<times> string list) list" where
  "os_walk here (File c) = []"
| "os_walk here (Dir es) =
     (here, map fst (filter (\<lambda>e. is_dir (snd e)) es), map fst (filter (\<lambda>e. \<not> is_dir (snd e)) es))
       # os_walk_dirs here es"
| "os_walk_dirs here [] = []"
| "os_walk_dirs here (e # es) = os_walk (here @ [fst e]) (snd e) @ os_walk_dirs here es"

definition os_walk_path :: "state \<Rightarrow> path \<Rightarrow> (string list \<times> string list \<times> string list) list" where
  "os_walk_path st p =
     (case resolve (root st) (abs_parts st p) of
        Inl e \<Rightarrow> []
      | Inr n \<Rightarrow> os_walk (abs_parts st p) n)"

subsection \<open>External collaborators\<close>

text \<open>
  A parsed JSON document, a numpy array (its shape and its elements in row-major
  order) and a pandas data frame (its number of rows and its columns, each a name and
  its cells; \<open>NaN\<close> is a missing value). The type \<open>'f\<close> is the type of floating-point
  values, which the model does not interpret.
\<close>

datatype json = JNull | JBool bool | JNum string | JStr string | JArr "json list"
  | JObj "(string \<times> json) list"

record 'f ndarray =
  shape :: "nat list"
  elems :: "'f list"

datatype 'f cell = NaN | Num 'f | Str string

record 'f dataframe =
  nrows :: nat
  columns :: "(string \<times> 'f cell list) list"

record 'f env =
  md5_hexdigest :: "string \<Rightarrow> string"
  json_dump :: "(string \<times> string) list \<Rightarrow> string"
  json_load :: "string \<Rightarrow> json option"
  np_save_bytes :: "'f ndarray \<Rightarrow> string"
  np_load_bytes :: "string \<Rightarrow> 'f ndarray option"
  read_csv :: "string \<Rightarrow> 'f dataframe option"
  float32_of_str :: "string \<Rightarrow> 'f option"
  float32_of_num :: "'f \<Rightarrow> 'f"
  float32_nan :: 'f
  py_int :: "string \<Rightarrow> int option"
  kaggle_authenticate :: bool
  kaggle_training_zip :: "string option"
  zip_members :: "string \<Rightarrow> (string \<times> string) list option"

text \<open>
  A Python \<^verbatim>\<open>dict\<close> is the list of its items in insertion order, with distinct keys:
  \<open>AList.update\<close> is the assignment \<^verbatim>\<open>d[k] = v\<close>. \<^verbatim>\<open>json.load\<close> builds the dict of an
  object from its pairs in document order. Two dicts are equal when they have the same
  number of items and every item of the first is an item of the second.
\<close>

definition dict_of_pairs :: "(string \<times> 'v) list \<Rightarrow> (string \<times> 'v) list" where
  "dict_of_pairs kvs = foldl (\<lambda>d kv. AList.update (fst kv) (snd kv) d) [] kvs"

fun dict_eq_json :: "(string \<times> string) list \<Rightarrow> json \<Rightarrow> bool" where
  "dict_eq_json d (JObj kvs) =
     (let old = dict_of_pairs kvs
      in length d = length old \<and> list_all (\<lambda>kv. map_of old (fst kv) = Some (JStr (snd kv))) d)"
| "dict_eq_json d j = False"

definition np_load :: "'f env \<Rightarrow> state \<Rightarrow> path \<Rightarrow> error + 'f ndarray" where
  "np_load E st p =
     and_then (read_file st p)
       (\<lambda>bytes. case np_load_bytes E bytes of None \<Rightarrow> Inl ValueError | Some a \<Rightarrow> Inr a)"

definition np_save :: "'f env \<Rightarrow> state \<Rightarrow> string \<Rightarrow> 'f ndarray \<Rightarrow> error + state" where
  "np_save E st file arr = write_file st (path_of_str file) (np_save_bytes E arr)"

subsection \<open>LandmarkShardDataset\<close>

record dataset =
  ds_rank :: int
  ds_worldsize :: int
  dataset_dir :: path
  img_names :: "path list"

text \<open>\<^verbatim>\<open>dataset_dir.glob('img_*.npy')\<close>: the entries of the directory whose name matches.\<close>

definition fnmatch_img_npy :: "string \<Rightarrow> bool" where
  "fnmatch_img_npy n = (8 \<le> length n \<and> take 4 n = ''img_'' \<and> drop (length n - 4) n = ''.npy'')"

definition glob_img_npy :: "state \<Rightarrow> path \<Rightarrow> path list" where
  "glob_img_npy st d =
     (case resolve (root st) (abs_parts st d) of
        Inr (Dir es) \<Rightarrow> map (\<lambda>n. path_join d (Path False [n])) (filter fnmatch_img_npy (map fst es))
      | Inr (File c) \<Rightarrow> []
      | Inl e \<Rightarrow> [])"

definition LandmarkShardDataset_init :: "(nat \<Rightarrow> nat) \<Rightarrow> state \<Rightarrow> path \<Rightarrow> int \<Rightarrow> int \<Rightarrow> error + dataset" where
  "LandmarkShardDataset_init rng st d r w =
     and_then (getslice_from (glob_img_npy st d) (r - 1) w)
       (\<lambda>names. Inr \<lparr>ds_rank = r, ds_worldsize = w, dataset_dir = d, img_names = shuffle rng names\<rparr>)"

definition getitem :: "'f env \<Rightarrow> state \<Rightarrow> dataset \<Rightarrow> int \<Rightarrow> error + ('f ndarray \<times> 'f ndarray)" where
  "getitem E st ds index =
     and_then (list_getitem (img_names ds) index) (\<lambda>name.
       let kp_name = str_replace ''img'' ''keypoints'' (path_str name)
       in and_then (np_load E st name) (\<lambda>img.
          and_then (np_load E st (path_join_str (dataset_dir ds) kp_name)) (\<lambda>kp.
            Inr (img, kp))))"

definition len :: "dataset \<Rightarrow> int" where
  "len ds = int (length (img_names ds))"

subsection \<open>LandmarkShardDescriptor\<close>

text \<open>
  The attributes of the descriptor. \<open>sample_shape\<close> and \<open>target_shape\<close> are assigned
  last in the constructor; until then they are empty.
\<close>

record descriptor =
  rank :: int
  worldsize :: int
  data_folder :: path
  sample_shape :: "string list"
  target_shape :: string

fun md5_files :: "'f env \<Rightarrow> state \<Rightarrow> path \<Rightarrow> string list \<Rightarrow> string list \<Rightarrow> (string \<times> string) list \<Rightarrow> error + (string \<times> string) list" where
  "md5_files E st folder here [] md5_dict = Inr md5_dict"
| "md5_files E st folder here (file # files) md5_dict =
     (if file = ''dataset.json'' then md5_files E st folder here files md5_dict
      else let rel_dir = relpath here (abs_parts st folder);
               rel_file = os_path_join rel_dir file
           in and_then (read_file st (path_join_str folder rel_file)) (\<lambda>bytes.
                md5_files E st folder here files (AList.update rel_file (md5_hexdigest E bytes) md5_dict)))"

fun md5_walk :: "'f env \<Rightarrow> state \<Rightarrow> path \<Rightarrow> (string list \<times> string list \<times> string list) list \<Rightarrow> (string \<times> string) list \<Rightarrow> error + (string \<times> string) list" where
  "md5_walk E st folder [] md5_dict = Inr md5_dict"
| "md5_walk E st folder ((here, dirs, files) # rest) md5_dict =
     and_then (md5_files E st folder here files md5_dict) (md5_walk E st folder rest)"

definition calc_all_md5 :: "'f env \<Rightarrow> descriptor \<Rightarrow> state \<Rightarrow> error + (string \<times> string) list" where
  "calc_all_md5 E self st =
     md5_walk E st (data_folder self) (os_walk_path st (data_folder self)) []"

definition manifest_file :: "descriptor \<Rightarrow> path" where
  "manifest_file self = path_of_str (os_path_join (path_str (data_folder self)) ''dataset.json'')"

definition save_all_md5 :: "'f env \<Rightarrow> descriptor \<Rightarrow> state \<Rightarrow> error + state" where
  "save_all_md5 E self st =
     and_then (calc_all_md5 E self st) (\<lambda>all_md5.
       write_file st (manifest_file self) (json_dump E all_md5))"

definition is_dataset_complete :: "'f env \<Rightarrow> descriptor \<Rightarrow> state \<Rightarrow> error + bool" where
  "is_dataset_complete E self st =
     and_then (calc_all_md5 E self st) (\<lambda>new_md5.
       case read_file st (manifest_file self) of
         Inl e \<Rightarrow> (if e = FileNotFoundError then Inr False else Inl e)
       | Inr text \<Rightarrow>
           (case json_load E text of
              None \<Rightarrow> Inl JSONDecodeError
            | Some old_md5 \<Rightarrow> Inr (dict_eq_json new_md5 old_md5)))"

text \<open>
  \<^verbatim>\<open>process_data\<close>. \<^verbatim>\<open>fillna(method='ffill')\<close> replaces, in every column, a missing
  cell by the last cell above it that is not missing; \<^verbatim>\<open>drop('Image', axis=1)\<close>
  removes the column or raises \<^verbatim>\<open>KeyError\<close>. A cell that is not a string has no
  \<^verbatim>\<open>split\<close>. \<^verbatim>\<open>np.array(..., dtype='float32')\<close> raises \<^verbatim>\<open>ValueError\<close> on a token
  that is not a number, and \<^verbatim>\<open>reshape\<close> on a size that does not fit.
\<close>

fun ffill_col :: "'f cell \<Rightarrow> 'f cell list \<Rightarrow> 'f cell list" where
  "ffill_col prev [] = []"
| "ffill_col prev (c # cs) = (if c = NaN then prev # ffill_col prev cs else c # ffill_col c cs)"

definition fillna_ffill :: "'f dataframe \<Rightarrow> 'f dataframe" where
  "fillna_ffill df = df\<lparr>columns := map (\<lambda>col. (fst col, ffill_col NaN (snd col))) (columns df)\<rparr>"

definition df_drop :: "string \<Rightarrow> 'f dataframe \<Rightarrow> error + 'f dataframe" where
  "df_drop name df =
     (if name \<in> set (map fst (columns df))
      then Inr (df\<lparr>columns := filter (\<lambda>col. fst col \<noteq> name) (columns df)\<rparr>)
      else Inl KeyError)"

definition df_cell :: "'f dataframe \<Rightarrow> string \<Rightarrow> nat \<Rightarrow> error + 'f cell" where
  "df_cell df name i =
     (case map_of (columns df) name of
        None \<Rightarrow> Inl KeyError
      | Some col \<Rightarrow> if i < length col then Inr (col ! i) else Inl KeyError)"

definition iloc_row :: "'f dataframe \<Rightarrow> nat \<Rightarrow> error + 'f cell list" where
  "iloc_row df i =
     (if list_all (\<lambda>col. i < length (snd col)) (columns df)
      then Inr (map (\<lambda>col. snd col ! i) (columns df))
      else Inl IndexError)"

definition float32_of_cell :: "'f env \<Rightarrow> 'f cell \<Rightarrow> 'f option" where
  "float32_of_cell E c =
     (case c of NaN \<Rightarrow> Some (float32_nan E) | Num v \<Rightarrow> Some (float32_of_num E v)
      | Str s \<Rightarrow> float32_of_str E s)"

definition np_array_float32 :: "('a \<Rightarrow> 'f option) \<Rightarrow> 'a list \<Rightarrow> error + 'f ndarray" where
  "np_array_float32 conv xs =
     (case those (map conv xs) of
        None \<Rightarrow> Inl ValueError
      | Some vs \<Rightarrow> Inr \<lparr>shape = [length vs], elems = vs\<rparr>)"

definition reshape :: "'f ndarray \<Rightarrow> nat list \<Rightarrow> error + 'f ndarray" where
  "reshape a dims = (if prod_list dims = length (elems a) then Inr (a\<lparr>shape := dims\<rparr>) else Inl ValueError)"

fun process_rows :: "'f env \<Rightarrow> 'f dataframe \<Rightarrow> 'f dataframe \<Rightarrow> string \<Rightarrow> nat list \<Rightarrow> state \<Rightarrow> error + state" where
  "process_rows E data_df keypoints cur_folder [] st = Inr st"
| "process_rows E data_df keypoints cur_folder (i # rest) st =
     and_then (df_cell data_df ''Image'' i) (\<lambda>image.
       case image of
         Str s \<Rightarrow>
           (let img = split_sep CHR '' '' s
            in and_then (np_array_float32 (float32_of_str E) (map (\<lambda>x. if x = [] then ''0'' else x) img)) (\<lambda>arr.
               and_then (reshape arr [96, 96]) (\<lambda>img.
               and_then (np_save E st (cur_folder @ ''img_'' @ str_nat i @ ''.npy'') img) (\<lambda>st1.
               and_then (iloc_row keypoints i) (\<lambda>row.
               and_then (np_array_float32 (float32_of_cell E) row) (\<lambda>y.
               and_then (np_save E st1 (cur_folder @ ''keypoints_'' @ str_nat i @ ''.npy'') y) (\<lambda>st2.
                 process_rows E data_df keypoints cur_folder rest st2)))))))
       | NaN \<Rightarrow> Inl AttributeError
       | Num v \<Rightarrow> Inl AttributeError)"

definition process_data :: "'f env \<Rightarrow> descriptor \<Rightarrow> state \<Rightarrow> string \<Rightarrow> error + state" where
  "process_data E self st name_csv_file =
     and_then (read_file st (path_join_str (data_folder self) name_csv_file)) (\<lambda>text.
       case read_csv E text of
         None \<Rightarrow> Inl ValueError
       | Some df \<Rightarrow>
           (let data_df = fillna_ffill df
            in and_then (df_drop ''Image'' data_df) (\<lambda>keypoints.
               and_then (relative_to (data_folder self) (Path True (cwd st))) (\<lambda>rel.
                 let cur_folder = path_str rel @ ''/''
                 in process_rows E data_df keypoints cur_folder [0..<nrows data_df] st))))"

text \<open>
  The Kaggle client and the zip reader. The client writes the file it downloads into
  the directory it is given, creating the directory when it is missing; extraction
  creates the directories of a member, drops the components \<^verbatim>\<open>..\<close> of its name, and
  makes a directory of a member whose name ends with a slash.
\<close>

definition api_authenticate :: "'f env \<Rightarrow> state \<Rightarrow> error + state" where
  "api_authenticate E st =
     (if kaggle_authenticate E then Inr (st\<lparr>trace := trace st @ [Authenticated]\<rparr>) else Inl ApiError)"

definition competition_download_file :: "'f env \<Rightarrow> state \<Rightarrow> path \<Rightarrow> error + state" where
  "competition_download_file E st p =
     (case kaggle_training_zip E of
        None \<Rightarrow> Inl ApiError
      | Some bytes \<Rightarrow>
          and_then (fs_alter True (write_op bytes) st (path_join p (Path False [''training.zip''])))
            (\<lambda>st'. Inr (st'\<lparr>trace := trace st' @ [Downloaded]\<rparr>)))"

definition member_path :: "string \<Rightarrow> path" where
  "member_path name = Path False (filter (\<lambda>c. c \<noteq> ''..'') (parts (path_of_str name)))"

fun extract_members :: "state \<Rightarrow> path \<Rightarrow> (string \<times> string) list \<Rightarrow> error + state" where
  "extract_members st d [] = Inr st"
| "extract_members st d (m # ms) =
     and_then
       (fs_alter True (if fst m \<noteq> [] \<and> last (fst m) = CHR ''/'' then ensure_dir_op else write_op (snd m))
          st (path_join d (member_path (fst m))))
       (\<lambda>st'. extract_members st' d ms)"

definition extractall :: "'f env \<Rightarrow> state \<Rightarrow> path \<Rightarrow> path \<Rightarrow> error + state" where
  "extractall E st archive d =
     and_then (read_file st archive) (\<lambda>bytes.
       case zip_members E bytes of
         None \<Rightarrow> Inl BadZipFile
       | Some ms \<Rightarrow> and_then (extract_members st d ms) (\<lambda>st'. Inr (st'\<lparr>trace := trace st' @ [Extracted]\<rparr>)))"

text \<open>
  \<^verbatim>\<open>download_data\<close>; \<open>fetch_and_convert\<close> is its part from the download on (lines 102
  to 114 of the source).
\<close>

definition fetch_and_convert :: "'f env \<Rightarrow> descriptor \<Rightarrow> state \<Rightarrow> error + state" where
  "fetch_and_convert E self st =
     and_then (competition_download_file E st (data_folder self)) (\<lambda>st1.
     and_then (extractall E st1 (path_join_str (data_folder self) ''training.zip'') (data_folder self)) (\<lambda>st2.
     and_then (os_remove st2 (path_join_str (data_folder self) ''training.zip'')) (\<lambda>st3.
     and_then (process_data E self st3 ''training.csv'') (\<lambda>st4.
     and_then (os_remove (st4\<lparr>trace := trace st4 @ [Converted]\<rparr>) (path_join_str (data_folder self) ''training.csv'')) (\<lambda>st5.
       save_all_md5 E self st5)))))"

definition download_data :: "'f env \<Rightarrow> descriptor \<Rightarrow> state \<Rightarrow> error + state" where
  "download_data E self st =
     and_then (if \<not> os_path_exists st (data_folder self) then os_mkdir st (data_folder self) else Inr st) (\<lambda>st1.
     and_then (is_dataset_complete E self st1) (\<lambda>complete.
       if \<not> complete
       then and_then (api_authenticate E st1) (\<lambda>st2.
            and_then (if os_path_exists st2 (path_of_str ''data/train'')
                      then shutil_rmtree st2 (path_of_str ''data/train'') else Inr st2) (\<lambda>st3.
              fetch_and_convert E self st3))
       else Inr st1))"

definition get_dataset :: "(nat \<Rightarrow> nat) \<Rightarrow> state \<Rightarrow> descriptor \<Rightarrow> string \<Rightarrow> error + dataset" where
  "get_dataset rng st self dataset_type =
     LandmarkShardDataset_init rng st (data_folder self) (rank self) (worldsize self)"

text \<open>
  The constructor: it returns the descriptor and the state the download left, or the
  exception. \<^verbatim>\<open>get_dataset()\<close> is called with the default \<^verbatim>\<open>dataset_type='train'\<close>.
\<close>

definition LandmarkShardDescriptor_init :: "'f env \<Rightarrow> (nat \<Rightarrow> nat) \<Rightarrow> state \<Rightarrow> string \<Rightarrow> string \<Rightarrow> error + (descriptor \<times> state)" where
  "LandmarkShardDescriptor_init E rng st folder rank_worldsize =
     (case map (py_int E) (split_sep CHR '','' rank_worldsize) of
        [Some r, Some w] \<Rightarrow>
          (let self = \<lparr>rank = r, worldsize = w,
                       data_folder = path_join_str (Path True (cwd st)) folder,
                       sample_shape = [], target_shape = []\<rparr>
           in and_then (download_data E self st) (\<lambda>st1.
              and_then (get_dataset rng st1 self ''train'') (\<lambda>ds.
              and_then (getitem E st1 ds 0) (\<lambda>item.
                let sample = fst item; target = snd item;
                    self1 = self\<lparr>sample_shape := map str_nat (shape sample),
                                 target_shape := str_nat (length (shape target))\<rparr>
                in if target_shape self1 = ''1'' then Inr (self1, st1) else Inl AssertionError))))
      | _ \<Rightarrow> Inl ValueError)"

subsection \<open>Notions used to state the properties\<close>

text \<open>
  The set of file names a rank retains (empty when the construction raises), and the
  number of positions \<open>a, a + w, a + 2 * w, \<dots>\<close> below \<open>n\<close>.
\<close>

definition retained :: "(nat \<Rightarrow> nat) \<Rightarrow> state \<Rightarrow> path \<Rightarrow> int \<Rightarrow> int \<Rightarrow> path set" where
  "retained rng st d r w =
     (case LandmarkShardDataset_init rng st d r w of Inl e \<Rightarrow> {} | Inr ds \<Rightarrow> set (img_names ds))"

definition stride_count :: "nat \<Rightarrow> nat \<Rightarrow> nat \<Rightarrow> nat" where
  "stride_count n a w = (if a < n then (n - a - 1) div w + 1 else 0)"

text \<open>An example: the working directory \<^verbatim>\<open>/home/ws\<close> with five samples in \<^verbatim>\<open>data\<close>.\<close>

definition five_samples :: state where
  "five_samples =
     \<lparr>root = Dir [(''home'', Dir [(''ws'', Dir [(''data'', Dir
        [(''img_0.npy'', File ''i0''), (''keypoints_0.npy'', File ''k0''),
         (''img_1.npy'', File ''i1''), (''keypoints_1.npy'', File ''k1''),
         (''img_2.npy'', File ''i2''), (''keypoints_2.npy'', File ''k2''),
         (''img_3.npy'', File ''i3''), (''keypoints_3.npy'', File ''k3''),
         (''img_4.npy'', File ''i4''), (''keypoints_4.npy'', File ''k4'')])])])],
      cwd = [''home'', ''ws''], trace = []\<rparr>"

definition data_dir :: path where
  "data_dir = Path True [''home'', ''ws'', ''data'']"

text \<open>
  Well-formed file systems: a name is not empty, is not \<^verbatim>\<open>.\<close> and has no slash, and a
  directory has no two entries of the same name.
\<close>

definition valid_name :: "string \<Rightarrow> bool" where
  "valid_name n = (n \<noteq> [] \<and> n \<noteq> ''.'' \<and> CHR ''/'' \<notin> set n)"

fun wf_node :: "node \<Rightarrow> bool"
  and wf_entries :: "(string \<times> node) list \<Rightarrow> bool" where
  "wf_node (File c) = True"
| "wf_node (Dir es) = (distinct (map fst es) \<and> wf_entries es)"
| "wf_entries [] = True"
| "wf_entries (e # es) = (valid_name (fst e) \<and> wf_node (snd e) \<and> wf_entries es)"

definition wf_state :: "state \<Rightarrow> bool" where
  "wf_state st = (wf_node (root st) \<and> list_all valid_name (cwd st))"

text \<open>
  The files below a directory, each with its path relative to the directory and its
  content, in the order of the walk; the key \<^verbatim>\<open>calc_all_md5\<close> gives a file; and the
  dict of the checksums of a list of files.
\<close>

fun file_content :: "node \<Rightarrow> string" where
  "file_content (File c) = c"
| "file_content (Dir es) = []"

fun files_below :: "string list \<Rightarrow> node \<Rightarrow> (string list \<times> string) list"
  and files_below_dirs :: "string list \<Rightarrow> (string \<times> node) list \<Rightarrow> (string list \<times> string) list" where
  "files_below rel (File c) = []"
| "files_below rel (Dir es) =
     map (\<lambda>e. (rel @ [fst e], file_content (snd e))) (filter (\<lambda>e. \<not> is_dir (snd e)) es)
       @ files_below_dirs rel es"
| "files_below_dirs rel [] = []"
| "files_below_dirs rel (e # es) = files_below (rel @ [fst e]) (snd e) @ files_below_dirs rel es"

definition rel_key :: "string list \<Rightarrow> string" where
  "rel_key p =
     os_path_join (if butlast p = [] then ''.'' else join_sep CHR ''/'' (butlast p)) (last p)"

definition checksums :: "'f env \<Rightarrow> (string list \<times> string) list \<Rightarrow> (string \<times> string) list" where
  "checksums E fs = dict_of_pairs (map (\<lambda>f. (rel_key (fst f), md5_hexdigest E (snd f))) fs)"

text \<open>
  The manifest in the words of the specification: the checksums of all files below the
  data folder except the manifest itself. And the manifest the code computes: the
  checksums of all files that are not named \<^verbatim>\<open>dataset.json\<close>.
\<close>

definition spec_manifest :: "'f env \<Rightarrow> node \<Rightarrow> (string \<times> string) list" where
  "spec_manifest E n = checksums E (filter (\<lambda>f. fst f \<noteq> [''dataset.json'']) (files_below [] n))"

definition code_manifest :: "'f env \<Rightarrow> node \<Rightarrow> (string \<times> string) list" where
  "code_manifest E n = checksums E (filter (\<lambda>f. last (fst f) \<noteq> ''dataset.json'') (files_below [] n))"

text \<open>
  Auxiliary notions of the proofs: the assignment of one item to a dict, the items
  computed for a list of files, files whose name is not the manifest's, operations on an
  entry that keep the tree well-formed, and the manifest check as a function of the tree
  of the data folder.
\<close>

definition upd :: "(string \<times> string) list \<Rightarrow> string \<times> string \<Rightarrow> (string \<times> string) list" where
  "upd d kv = AList.update (fst kv) (snd kv) d"

definition checksum_items :: "'f env \<Rightarrow> (string list \<times> string) list \<Rightarrow> (string \<times> string) list" where
  "checksum_items E fs = map (\<lambda>f. (rel_key (fst f), md5_hexdigest E (snd f))) fs"

abbreviation not_manifest_name :: "string list \<times> string \<Rightarrow> bool" where
  "not_manifest_name f \<equiv> last (fst f) \<noteq> ''dataset.json''"

definition keeps_wf :: "(node option \<Rightarrow> error + node option) \<Rightarrow> bool" where
  "keeps_wf f = (\<forall>e m. (\<forall>m0. e = Some m0 \<longrightarrow> wf_node m0) \<longrightarrow> f e = Inr (Some m) \<longrightarrow> wf_node m)"

definition check_manifest :: "'f env \<Rightarrow> node \<Rightarrow> error + bool" where
  "check_manifest E n =
     (case resolve n [''dataset.json''] of
        Inl e \<Rightarrow> (if e = FileNotFoundError then Inr False else Inl e)
      | Inr (Dir es) \<Rightarrow> Inl IsADirectoryError
      | Inr (File text) \<Rightarrow>
          (case json_load E text of
             None \<Rightarrow> Inl JSONDecodeError
           | Some old \<Rightarrow> Inr (dict_eq_json (code_manifest E n) old)))"

text \<open>
  An example environment, for concrete runs. The floating-point values are integers;
  the checksum of a file is its content reversed; a manifest is written as
  \<^verbatim>\<open>key=value;\<close> items (a text with \<^verbatim>\<open>!\<close> does not parse); an array file whose
  first byte is \<^verbatim>\<open>i\<close> holds a two-dimensional array, any other non-empty file a
  one-dimensional one; the archive \<^verbatim>\<open>zip\<close> holds the file \<^verbatim>\<open>training.csv\<close> with the
  content \<^verbatim>\<open>csv\<close>, which parses to the frame \<open>example_df\<close>.
\<close>

fun parse_digits :: "nat \<Rightarrow> string \<Rightarrow> nat option" where
  "parse_digits acc [] = Some acc"
| "parse_digits acc (c # cs) =
     (if 48 \<le> (of_char c :: nat) \<and> (of_char c :: nat) \<le> 57
      then parse_digits (10 * acc + (of_char c - 48)) cs else None)"

definition parse_nat :: "string \<Rightarrow> nat option" where
  "parse_nat s = (if s = [] then None else parse_digits 0 s)"

definition example_image :: string where
  "example_image = concat (replicate 9215 '' 7'')"

definition example_df :: "int dataframe" where
  "example_df =
     \<lparr>nrows = 2,
      columns = [(''left_eye_x'', [Num 66, NaN]),
                 (''Image'', [Str example_image, Str example_image])]\<rparr>"

definition example_env :: "int env" where
  "example_env =
     \<lparr>md5_hexdigest = rev,
      json_dump = (\<lambda>d. concat (map (\<lambda>kv. fst kv @ ''='' @ snd kv @ '';'') d)),
      json_load = (\<lambda>text. if CHR ''!'' \<in> set text then None
         else Some (JObj (map (\<lambda>item. (takeWhile (\<lambda>c. c \<noteq> CHR ''='') item,
                                          JStr (drop 1 (dropWhile (\<lambda>c. c \<noteq> CHR ''='') item))))
                           (filter (\<lambda>item. item \<noteq> []) (split_sep CHR '';'' text))))),
      np_save_bytes = (\<lambda>a. (if length (shape a) = 1 then ''k'' else ''i'')
                             @ concat (map (\<lambda>v. str_nat (nat v) @ '','') (elems a))),
      np_load_bytes = (\<lambda>bytes. if bytes = [] then None
         else Some \<lparr>shape = (if hd bytes = CHR ''i'' then [1, length bytes] else [length bytes]),
                     elems = map (\<lambda>c. int (of_char c)) bytes\<rparr>),
      read_csv = (\<lambda>text. if text = ''csv'' then Some example_df else None),
      float32_of_str = (\<lambda>s. map_option int (parse_nat s)),
      float32_of_num = (\<lambda>v. v),
      float32_nan = - 1,
      py_int = (\<lambda>s. map_option int (parse_nat (filter (\<lambda>c. c \<noteq> CHR '' '') s))),
      kaggle_authenticate = True,
      kaggle_training_zip = Some ''zip'',
      zip_members = (\<lambda>bytes. if bytes = ''zip'' then Some [(''training.csv'', ''csv'')] else None)\<rparr>"

text \<open>
  Two more states: one sample with its manifest, and the same with a keypoints file
  that holds a two-dimensional array.
\<close>

definition one_sample :: state where
  "one_sample =
     \<lparr>root = Dir [(''home'', Dir [(''ws'', Dir [(''data'', Dir
        [(''img_0.npy'', File ''i0''), (''keypoints_0.npy'', File ''k0''),
         (''dataset.json'', File ''./img_0.npy=0i;./keypoints_0.npy=0k;'')])])])],
      cwd = [''home'', ''ws''], trace = []\<rparr>"

definition bad_target :: state where
  "bad_target =
     \<lparr>root = Dir [(''home'', Dir [(''ws'', Dir [(''data'', Dir
        [(''img_0.npy'', File ''i0''), (''keypoints_0.npy'', File ''i9''),
         (''dataset.json'', File ''./img_0.npy=0i;./keypoints_0.npy=9i;'')])])])],
      cwd = [''home'', ''ws''], trace = []\<rparr>"

definition example_self :: descriptor where
  "example_self = \<lparr>rank = 1, worldsize = 1, data_folder = data_dir, sample_shape = [], target_shape = []\<rparr>"

text \<open>
  A smaller environment: the table has no rows and the archive holds one more file.
  And a state in which the data folder does not exist yet.
\<close>

definition small_env :: "int env" where
  "small_env =
     example_env\<lparr>read_csv := (\<lambda>body. if body = ''csv''
                                  then Some \<lparr>nrows = 0, columns = [(''Image'', [])]\<rparr> else None),
                  zip_members := (\<lambda>bytes. if bytes = ''zip''
                                  then Some [(''training.csv'', ''csv''), (''notes/readme.txt'', ''hi'')]
                                  else None)\<rparr>"

definition fresh_state :: state where
  "fresh_state = \<lparr>root = Dir [(''home'', Dir [(''ws'', Dir [])])], cwd = [''home'', ''ws''], trace = []\<rparr>"

definition after_download :: state where
  "after_download =
     \<lparr>root = Dir [(''home'', Dir [(''ws'', Dir [(''data'', Dir
        [(''notes'', Dir [(''readme.txt'', File ''hi'')]),
         (''dataset.json'', File ''notes/readme.txt=ih;'')])])])],
      cwd = [''home'', ''ws''],
      trace = [Authenticated, Downloaded, Extracted, Converted]\<rparr>"

text \<open>
  A data folder with a subdirectory that holds a file named like the manifest.
\<close>

definition nested_data :: node where
  "nested_data =
     Dir [(''img_0.npy'', File ''i0''), (''keypoints_0.npy'', File ''k0''),
          (''sub'', Dir [(''dataset.json'', File ''old'')]),
          (''dataset.json'', File ''./img_0.npy=0i;./keypoints_0.npy=0k;'')]"

definition nested_manifest :: state where
  "nested_manifest =
     \<lparr>root = Dir [(''home'', Dir [(''ws'', Dir [(''data'', nested_data)])])],
      cwd = [''home'', ''ws''], trace = []\<rparr>"

section \<open>Properties\<close>


subsection \<open>Path strings\<close>

lemma split_sep_no_sep: "sep \<notin> set x \<Longrightarrow> split_sep sep x = [x]"
  by (induction x) auto

lemma split_sep_append: "sep \<notin> set x \<Longrightarrow> split_sep sep (x @ sep # r) = x # split_sep sep r"
  by (induction x) auto

lemma split_join:
  "ps \<noteq> [] \<Longrightarrow> \<forall>n\<in>set ps. sep \<notin> set n \<Longrightarrow> split_sep sep (join_sep sep ps) = ps"
proof (induction sep ps rule: join_sep.induct)
  case (1 sep)
  then show ?case by simp
next
  case (2 sep x)
  then show ?case by (simp add: split_sep_no_sep)
next
  case (3 sep x y zs)
  then show ?case by (simp add: split_sep_append)
qed

lemma join_sep_nonempty: "ps \<noteq> [] \<Longrightarrow> \<forall>n\<in>set ps. n \<noteq> [] \<Longrightarrow> join_sep sep ps \<noteq> []"
  by (induction sep ps rule: join_sep.induct) auto

lemma hd_join_sep: "ps \<noteq> [] \<Longrightarrow> hd ps \<noteq> [] \<Longrightarrow> hd (join_sep sep ps) = hd (hd ps)"
  by (induction sep ps rule: join_sep.induct) auto

lemma last_join_sep:
  "ps \<noteq> [] \<Longrightarrow> \<forall>n\<in>set ps. n \<noteq> [] \<Longrightarrow> last (join_sep sep ps) = last (last ps)"
proof (induction sep ps rule: join_sep.induct)
  case (3 sep x y zs)
  then have "join_sep sep (y # zs) \<noteq> []" by (intro join_sep_nonempty) auto
  then show ?case using 3 by simp
qed auto

lemma join_sep_snoc: "ps \<noteq> [] \<Longrightarrow> join_sep sep (ps @ [x]) = join_sep sep ps @ sep # x"
  by (induction sep ps rule: join_sep.induct) auto

lemma valid_nameD: "valid_name n \<Longrightarrow> n \<noteq> [] \<and> n \<noteq> ''.'' \<and> CHR ''/'' \<notin> set n"
  by (simp add: valid_name_def)

lemma valid_name_hd: "valid_name n \<Longrightarrow> hd n \<noteq> CHR ''/''"
  by (cases n) (auto simp: valid_name_def)

lemma valid_name_last: "valid_name n \<Longrightarrow> last n \<noteq> CHR ''/''"
proof
  assume v: "valid_name n" and l: "last n = CHR ''/''"
  from v have "n \<noteq> []" by (simp add: valid_name_def)
  then have "last n \<in> set n" by (rule last_in_set)
  then show False using v l by (simp add: valid_name_def)
qed

lemma filter_valid_parts:
  "list_all valid_name ps \<Longrightarrow> filter (\<lambda>c. c \<noteq> [] \<and> c \<noteq> ''.'') ps = ps"
  by (induction ps) (auto simp: valid_name_def)

lemma path_of_str_join:
  assumes "ps \<noteq> []" "list_all valid_name ps"
  shows "path_of_str (join_sep CHR ''/'' ps) = Path False ps"
proof -
  have v: "\<forall>n\<in>set ps. CHR ''/'' \<notin> set n" "\<forall>n\<in>set ps. n \<noteq> []"
    using assms(2) by (auto simp: list_all_iff valid_name_def)
  have s: "split_sep CHR ''/'' (join_sep CHR ''/'' ps) = ps" by (rule split_join[OF assms(1) v(1)])
  have ne: "join_sep CHR ''/'' ps \<noteq> []" by (rule join_sep_nonempty[OF assms(1) v(2)])
  have "hd ps \<noteq> []" using assms(1) v(2) by (cases ps) auto
  then have "hd (join_sep CHR ''/'' ps) = hd (hd ps)" by (rule hd_join_sep[OF assms(1)])
  moreover have "hd (hd ps) \<noteq> CHR ''/''"
    using assms by (cases ps) (auto dest: valid_name_hd)
  ultimately have "take 1 (join_sep CHR ''/'' ps) \<noteq> ''/''"
    using ne by (cases "join_sep CHR ''/'' ps") auto
  then show ?thesis by (simp add: path_of_str_def s filter_valid_parts[OF assms(2)])
qed

lemma path_of_str_slash_join:
  assumes "list_all valid_name ps"
  shows "path_of_str (CHR ''/'' # join_sep CHR ''/'' ps) = Path True ps"
proof (cases "ps = []")
  case True
  then show ?thesis by (simp add: path_of_str_def)
next
  case False
  have v: "\<forall>n\<in>set ps. CHR ''/'' \<notin> set n"
    using assms by (auto simp: list_all_iff valid_name_def)
  have s: "split_sep CHR ''/'' (join_sep CHR ''/'' ps) = ps" by (rule split_join[OF False v])
  show ?thesis by (simp add: path_of_str_def s filter_valid_parts[OF assms])
qed

lemma path_of_str_dot_slash:
  assumes "valid_name n"
  shows "path_of_str (''./'' @ n) = Path False [n]"
  using assms by (simp add: path_of_str_def split_sep_no_sep valid_name_def)

lemma path_of_str_path_str:
  assumes "list_all valid_name (parts p)"
  shows "path_of_str (path_str p) = p"
proof (cases p)
  case (Path a ps)
  show ?thesis
  proof (cases a)
    case True
    then show ?thesis using Path assms by (simp add: path_str_def path_of_str_slash_join)
  next
    case False
    show ?thesis
    proof (cases "ps = []")
      case True
      then show ?thesis using Path False by (simp add: path_str_def path_of_str_def)
    next
      case ne: False
      then show ?thesis using Path False assms by (simp add: path_str_def path_of_str_join)
    qed
  qed
qed




subsection \<open>Resolving paths\<close>

lemma resolve_append: "resolve n (p @ q) = and_then (resolve n p) (\<lambda>m. resolve m q)"
proof (induction n p rule: resolve.induct)
  case (1 n)
  then show ?case by simp
next
  case (2 c x xs)
  then show ?case by simp
next
  case (3 es x xs)
  then show ?case by (cases "map_of es x") simp_all
qed

lemma map_of_entry: "distinct (map fst es) \<Longrightarrow> e \<in> set es \<Longrightarrow> map_of es (fst e) = Some (snd e)"
  by (cases e) simp

lemma resolve_child:
  assumes "resolve r here = Inr (Dir es)" "distinct (map fst es)" "e \<in> set es"
  shows "resolve r (here @ [fst e]) = Inr (snd e)"
  using assms by (simp add: resolve_append map_of_entry)

lemma wf_entries_iff: "wf_entries es = (\<forall>e\<in>set es. valid_name (fst e) \<and> wf_node (snd e))"
  by (induction es) auto

lemma lcp_append: "longest_common_prefix xs (xs @ ys) = xs"
  by (induction xs) simp_all

lemma relpath_below: "relpath (base @ rel) base = (if rel = [] then ''.'' else join_sep CHR ''/'' rel)"
  by (simp add: relpath_def lcp_append)

lemma os_path_join_key:
  assumes "list_all valid_name rel" "valid_name f"
  shows "os_path_join (relpath (base @ rel) base) f = rel_key (rel @ [f])"
  by (simp add: relpath_below rel_key_def)

lemma take1_valid: "valid_name f \<Longrightarrow> take 1 f \<noteq> ''/''"
  by (cases f) (auto simp: valid_name_def)

lemma path_of_rel_key:
  assumes "list_all valid_name rel" "valid_name f"
  shows "path_of_str (rel_key (rel @ [f])) = Path False (rel @ [f])"
proof (cases "rel = []")
  case True
  have "os_path_join ''.'' f = ''./'' @ f" using take1_valid[OF assms(2)] by (simp add: os_path_join_def)
  then show ?thesis using True path_of_str_dot_slash[OF assms(2)] by (simp add: rel_key_def)
next
  case False
  have v: "\<forall>n\<in>set rel. n \<noteq> []" using assms(1) by (auto simp: list_all_iff valid_name_def)
  have ne: "join_sep CHR ''/'' rel \<noteq> []" by (rule join_sep_nonempty[OF False v])
  have "last (join_sep CHR ''/'' rel) = last (last rel)" by (rule last_join_sep[OF False v])
  moreover have "valid_name (last rel)" using False assms(1) by (simp add: list_all_iff)
  ultimately have l: "last (join_sep CHR ''/'' rel) \<noteq> CHR ''/''" using valid_name_last by simp
  have "os_path_join (join_sep CHR ''/'' rel) f = join_sep CHR ''/'' rel @ CHR ''/'' # f"
    using take1_valid[OF assms(2)] ne l by (simp add: os_path_join_def)
  also have "\<dots> = join_sep CHR ''/'' (rel @ [f])" by (simp add: join_sep_snoc[OF False])
  finally have k: "rel_key (rel @ [f]) = join_sep CHR ''/'' (rel @ [f])"
    using False by (simp add: rel_key_def)
  have "list_all valid_name (rel @ [f])" using assms by simp
  then show ?thesis unfolding k by (intro path_of_str_join) simp_all
qed

lemma abs_parts_join:
  "abs_parts st (path_join folder (Path False ps)) = abs_parts st folder @ ps"
  by (simp add: abs_parts_def path_join_def)

lemma manifest_file_parts:
  assumes "list_all valid_name (parts folder)"
  shows "path_of_str (os_path_join (path_str folder) ''dataset.json'') =
           path_join folder (Path False [''dataset.json''])"
proof (cases folder)
  case (Path a ps)
  have vps: "list_all valid_name ps" using assms Path by simp
  have vd: "valid_name ''dataset.json''" by (simp add: valid_name_def)
  show ?thesis
  proof (cases "ps = []")
    case True
    show ?thesis
    proof (cases a)
      case True
      then show ?thesis using \<open>ps = []\<close> Path
        by (simp add: path_str_def os_path_join_def path_of_str_def path_join_def)
    next
      case False
      then show ?thesis using \<open>ps = []\<close> Path
        by (simp add: path_str_def os_path_join_def path_of_str_def path_join_def)
    qed
  next
    case False
    have v: "\<forall>n\<in>set ps. n \<noteq> []" using vps by (auto simp: list_all_iff valid_name_def)
    have ne: "join_sep CHR ''/'' ps \<noteq> []" by (rule join_sep_nonempty[OF False v])
    have "last (join_sep CHR ''/'' ps) = last (last ps)" by (rule last_join_sep[OF False v])
    moreover have "valid_name (last ps)" using False vps by (simp add: list_all_iff)
    ultimately have l: "last (join_sep CHR ''/'' ps) \<noteq> CHR ''/''" using valid_name_last by simp
    have j: "join_sep CHR ''/'' ps @ CHR ''/'' # ''dataset.json'' = join_sep CHR ''/'' (ps @ [''dataset.json''])"
      by (simp add: join_sep_snoc[OF False])
    have vall: "list_all valid_name (ps @ [''dataset.json''])" using vps vd by simp
    show ?thesis
    proof (cases a)
      case True
      have "os_path_join (path_str folder) ''dataset.json'' =
          CHR ''/'' # join_sep CHR ''/'' (ps @ [''dataset.json''])"
        using True Path ne l j by (simp add: path_str_def os_path_join_def)
      then show ?thesis using True Path path_of_str_slash_join[OF vall]
        by (simp add: path_join_def)
    next
      case nf: False
      have "os_path_join (path_str folder) ''dataset.json'' =
          join_sep CHR ''/'' (ps @ [''dataset.json''])"
        using nf False Path ne l j by (simp add: path_str_def os_path_join_def)
      then show ?thesis using nf Path path_of_str_join[OF _ vall]
        by (simp add: path_join_def)
    qed
  qed
qed

lemma abs_parts_manifest:
  assumes "list_all valid_name (parts (data_folder self))"
  shows "abs_parts st (manifest_file self) = abs_parts st (data_folder self) @ [''dataset.json'']"
  unfolding manifest_file_def manifest_file_parts[OF assms] by (rule abs_parts_join)




subsection \<open>What the manifest computation computes\<close>

lemma upd_pair: "upd d (k, v) = AList.update k v d"
  by (simp add: upd_def)

lemma dict_of_pairs_foldl: "dict_of_pairs kvs = foldl upd [] kvs"
  by (simp add: dict_of_pairs_def upd_def[abs_def])

lemma md5_walk_append:
  "md5_walk E st folder (xs @ ys) d = and_then (md5_walk E st folder xs d) (md5_walk E st folder ys)"
proof (induction xs arbitrary: d)
  case Nil
  then show ?case by simp
next
  case (Cons x xs)
  obtain here dirs files where x: "x = (here, dirs, files)" by (cases x)
  show ?case
    by (cases "md5_files E st folder here files d") (simp_all add: x Cons.IH)
qed

lemma read_file_child:
  assumes "resolve (root st) here = Inr (Dir es)" "distinct (map fst es)" "e \<in> set es"
    and "\<not> is_dir (snd e)" "abs_parts st p = here @ [fst e]"
  shows "read_file st p = Inr (file_content (snd e))"
proof -
  have "resolve (root st) (abs_parts st p) = Inr (snd e)"
    unfolding assms(5) by (rule resolve_child[OF assms(1,2,3)])
  then show ?thesis using assms(4) by (cases "snd e") (simp_all add: read_file_def)
qed

lemma md5_files_entries:
  assumes "resolve (root st) (abs_parts st folder @ rel) = Inr (Dir es)" "distinct (map fst es)"
    and "wf_entries es" "list_all valid_name rel"
    and "set xs \<subseteq> set es" "\<forall>e\<in>set xs. \<not> is_dir (snd e)"
  shows "md5_files E st folder (abs_parts st folder @ rel) (map fst xs) d =
     Inr (foldl upd d (map (\<lambda>e. (rel_key (rel @ [fst e]), md5_hexdigest E (file_content (snd e))))
                         (filter (\<lambda>e. fst e \<noteq> ''dataset.json'') xs)))"
  using assms(5,6)
proof (induction xs arbitrary: d)
  case Nil
  then show ?case by simp
next
  case (Cons e xs)
  have e: "e \<in> set es" "\<not> is_dir (snd e)" using Cons.prems by auto
  have v: "valid_name (fst e)" using assms(3) e(1) by (simp add: wf_entries_iff)
  have IH: "\<And>d. md5_files E st folder (abs_parts st folder @ rel) (map fst xs) d =
     Inr (foldl upd d (map (\<lambda>e. (rel_key (rel @ [fst e]), md5_hexdigest E (file_content (snd e))))
                         (filter (\<lambda>e. fst e \<noteq> ''dataset.json'') xs)))"
    using Cons.IH Cons.prems by auto
  show ?case
  proof (cases "fst e = ''dataset.json''")
    case True
    then show ?thesis by (simp add: IH)
  next
    case False
    have k: "os_path_join (relpath (abs_parts st folder @ rel) (abs_parts st folder)) (fst e) =
        rel_key (rel @ [fst e])"
      by (rule os_path_join_key[OF assms(4) v])
    have p: "path_join_str folder (rel_key (rel @ [fst e])) =
        path_join folder (Path False (rel @ [fst e]))"
      by (simp add: path_join_str_def path_of_rel_key[OF assms(4) v])
    have a: "abs_parts st (path_join_str folder (rel_key (rel @ [fst e]))) =
        (abs_parts st folder @ rel) @ [fst e]"
      unfolding p by (simp add: abs_parts_join)
    have r: "read_file st (path_join_str folder (rel_key (rel @ [fst e]))) = Inr (file_content (snd e))"
      by (rule read_file_child[OF assms(1,2) e a])
    show ?thesis using False by (simp add: k r IH Let_def upd_pair)
  qed
qed

lemma kvs_append: "checksum_items E (xs @ ys) = checksum_items E xs @ checksum_items E ys"
  by (simp add: checksum_items_def)

lemma kvs_files_here:
  "checksum_items E (filter not_manifest_name (map (\<lambda>e. (rel @ [fst e], file_content (snd e))) xs)) =
   map (\<lambda>e. (rel_key (rel @ [fst e]), md5_hexdigest E (file_content (snd e))))
     (filter (\<lambda>e. fst e \<noteq> ''dataset.json'') xs)"
  by (induction xs) (simp_all add: checksum_items_def)

lemma md5_walk_files_below:
  "resolve (root st) (abs_parts st folder @ rel) = Inr n \<Longrightarrow> wf_node n \<Longrightarrow> list_all valid_name rel \<Longrightarrow>
     md5_walk E st folder (os_walk (abs_parts st folder @ rel) n) d =
       Inr (foldl upd d (checksum_items E (filter not_manifest_name (files_below rel n))))"
  and "\<forall>e\<in>set es. resolve (root st) (abs_parts st folder @ rel @ [fst e]) = Inr (snd e) \<Longrightarrow>
     wf_entries es \<Longrightarrow> list_all valid_name rel \<Longrightarrow>
     md5_walk E st folder (os_walk_dirs (abs_parts st folder @ rel) es) d =
       Inr (foldl upd d (checksum_items E (filter not_manifest_name (files_below_dirs rel es))))"
proof (induction rel n and rel es arbitrary: d and d rule: files_below_files_below_dirs.induct)
  case (1 rel c)
  then show ?case by (simp add: checksum_items_def)
next
  case (2 rel es)
  let ?xs = "filter (\<lambda>e. \<not> is_dir (snd e)) es"
  have dist: "distinct (map fst es)" and wfe: "wf_entries es" using 2(3) by simp_all
  have f: "md5_files E st folder (abs_parts st folder @ rel) (map fst ?xs) d =
     Inr (foldl upd d (map (\<lambda>e. (rel_key (rel @ [fst e]), md5_hexdigest E (file_content (snd e))))
                         (filter (\<lambda>e. fst e \<noteq> ''dataset.json'') ?xs)))"
    by (rule md5_files_entries[OF 2(2) dist wfe 2(4)]) auto
  have ch: "\<forall>e\<in>set es. resolve (root st) (abs_parts st folder @ rel @ [fst e]) = Inr (snd e)"
    using resolve_child[OF 2(2) dist] by simp
  note IH = 2(1)[OF ch wfe 2(4)]
  show ?case
    by (simp add: f IH kvs_append kvs_files_here)
next
  case (3 rel)
  then show ?case by (simp add: checksum_items_def)
next
  case (4 rel e es)
  have r: "resolve (root st) (abs_parts st folder @ rel @ [fst e]) = Inr (snd e)" using 4(3) by simp
  have w: "wf_node (snd e)" "valid_name (fst e)" "wf_entries es" using 4(4) by simp_all
  have v: "list_all valid_name (rel @ [fst e])" using 4(5) w(2) by simp
  have rest: "\<forall>e\<in>set es. resolve (root st) (abs_parts st folder @ rel @ [fst e]) = Inr (snd e)"
    using 4(3) by simp
  have a: "\<And>d. md5_walk E st folder (os_walk (abs_parts st folder @ rel @ [fst e]) (snd e)) d =
       Inr (foldl upd d (checksum_items E (filter not_manifest_name (files_below (rel @ [fst e]) (snd e)))))"
    using 4(1)[OF _ w(1) v] r by simp
  have b: "\<And>d. md5_walk E st folder (os_walk_dirs (abs_parts st folder @ rel) es) d =
       Inr (foldl upd d (checksum_items E (filter not_manifest_name (files_below_dirs rel es))))"
    using 4(2)[OF rest w(3) 4(5)] by simp
  show ?case by (simp add: md5_walk_append a b kvs_append)
qed

lemma calc_all_md5_code_manifest:
  assumes "resolve (root st) (abs_parts st (data_folder self)) = Inr n" "wf_node n"
  shows "calc_all_md5 E self st = Inr (code_manifest E n)"
proof -
  have "md5_walk E st (data_folder self) (os_walk (abs_parts st (data_folder self) @ []) n) [] =
       Inr (foldl upd [] (checksum_items E (filter not_manifest_name (files_below [] n))))"
    by (rule md5_walk_files_below(1)) (use assms in simp_all)
  then show ?thesis
    by (simp add: calc_all_md5_def os_walk_path_def assms(1) code_manifest_def checksums_def
        dict_of_pairs_foldl checksum_items_def)
qed

lemma calc_all_md5_missing:
  assumes "resolve (root st) (abs_parts st (data_folder self)) = Inl e"
  shows "calc_all_md5 E self st = Inr []"
  by (simp add: calc_all_md5_def os_walk_path_def assms)




subsection \<open>Changing the tree\<close>

lemma alter_Dir:
  "alter mk f q n = Inr n' \<Longrightarrow> q \<noteq> [] \<Longrightarrow> \<exists>es es'. n = Dir es \<and> n' = Dir es'"
  by (induction mk f q n rule: alter.induct)
     (auto split: sum.splits option.splits if_splits)

lemma resolve_after_write:
  "alter mk (write_op c) q n = Inr n' \<Longrightarrow> q \<noteq> [] \<Longrightarrow> resolve n' q = Inr (File c)"
proof (induction mk "write_op c" q n arbitrary: n' rule: alter.induct)
  case (1 mk n)
  then show ?case by simp
next
  case (2 mk x xs c)
  then show ?case by simp
next
  case (3 mk x es)
  then show ?case
    by (cases "map_of es x"; cases "the (map_of es x)")
       (auto simp: update_conv' split: sum.splits option.splits)
next
  case (4 mk x y ys es)
  show ?case
  proof (cases "map_of es x")
    case None
    then obtain m' where m: "mk" "alter mk (write_op c) (y # ys) (Dir []) = Inr m'"
      "n' = Dir (AList.update x m' es)"
      using 4(3) by (auto split: sum.splits if_splits)
    have "resolve m' (y # ys) = Inr (File c)" using 4(1)[OF None m(1) m(2)] by simp
    then show ?thesis using m(3) by (simp add: update_conv')
  next
    case (Some m0)
    then obtain m' where m: "alter mk (write_op c) (y # ys) m0 = Inr m'"
      "n' = Dir (AList.update x m' es)"
      using 4(3) by (auto split: sum.splits)
    have "resolve m' (y # ys) = Inr (File c)" using 4(2)[OF Some m(1)] by simp
    then show ?thesis using m(2) by (simp add: update_conv')
  qed
qed

lemma resolve_Dir_empty: "p \<noteq> [] \<Longrightarrow> resolve (Dir []) p = Inl FileNotFoundError"
  by (cases p) simp_all

lemma alter_frame:
  "alter mk f q n = Inr n' \<Longrightarrow> \<not> prefix q p \<Longrightarrow> \<not> prefix p q \<Longrightarrow> resolve n' p = resolve n p"
proof (induction mk f q n arbitrary: n' p rule: alter.induct)
  case (1 mk f n)
  then show ?case by simp
next
  case (2 mk f x xs c)
  then show ?case by simp
next
  case (3 mk f x es)
  then obtain y ps where p: "p = y # ps" "y \<noteq> x" by (cases p) auto
  from 3(1) have "\<exists>es'. n' = Dir es' \<and> map_of es' y = map_of es y"
    using p(2) by (auto simp: update_conv' delete_conv' split: sum.splits option.splits)
  then show ?case using p by auto
next
  case (4 mk f x y ys es)
  then obtain z ps where p: "p = z # ps" by (cases p) auto
  show ?case
  proof (cases "z = x")
    case False
    from 4(3) have "\<exists>es'. n' = Dir es' \<and> map_of es' z = map_of es z"
      using False by (auto simp: update_conv' split: sum.splits option.splits if_splits)
    then show ?thesis using p by auto
  next
    case True
    have np: "\<not> prefix (y # ys) ps" "\<not> prefix ps (y # ys)" using 4(4,5) p True by simp_all
    then have pne: "ps \<noteq> []" by auto
    show ?thesis
    proof (cases "map_of es x")
      case None
      then obtain m' where m: "mk" "alter mk f (y # ys) (Dir []) = Inr m'"
        "n' = Dir (AList.update x m' es)"
        using 4(3) by (auto split: sum.splits if_splits)
      have "resolve m' ps = resolve (Dir []) ps" by (rule 4(1)[OF None m(1) m(2) np])
      then show ?thesis using m(3) p True None pne by (simp add: update_conv' resolve_Dir_empty)
    next
      case (Some m0)
      then obtain m' where m: "alter mk f (y # ys) m0 = Inr m'" "n' = Dir (AList.update x m' es)"
        using 4(3) by (auto split: sum.splits)
      have "resolve m' ps = resolve m0 ps" by (rule 4(2)[OF Some m(1) np])
      then show ?thesis using m(2) p True Some by (simp add: update_conv')
    qed
  qed
qed

lemma alter_below:
  "resolve r p = Inr m \<Longrightarrow> alter mk f (p @ q) r = Inr r' \<Longrightarrow> q \<noteq> [] \<Longrightarrow>
     \<exists>m'. alter mk f q m = Inr m' \<and> resolve r' p = Inr m'"
proof (induction r p arbitrary: r' rule: resolve.induct)
  case (1 n)
  then show ?case by simp
next
  case (2 c x xs)
  then show ?case by simp
next
  case (3 es x xs)
  then obtain m0 where m0: "map_of es x = Some m0" "resolve m0 xs = Inr m"
    by (auto split: option.splits)
  obtain z zs where z: "xs @ q = z # zs" using 3(4) by (cases "xs @ q") auto
  from 3(3) obtain m1 where m1: "alter mk f (xs @ q) m0 = Inr m1" "r' = Dir (AList.update x m1 es)"
    using m0(1) z by (auto split: sum.splits)
  from 3(1)[OF m0(1) m0(2) m1(1) 3(4)] obtain m' where
    "alter mk f q m = Inr m'" "resolve m1 xs = Inr m'" by blast
  then show ?case using m1(2) by (auto simp: update_conv')
qed

text \<open>The reverse direction: changing below an existing directory changes the tree.\<close>

lemma alter_below_ok:
  "resolve r p = Inr m \<Longrightarrow> alter mk f q m = Inr m' \<Longrightarrow> q \<noteq> [] \<Longrightarrow>
     \<exists>r'. alter mk f (p @ q) r = Inr r'"
proof (induction r p rule: resolve.induct)
  case (1 n)
  then show ?case by simp
next
  case (2 c x xs)
  then show ?case by simp
next
  case (3 es x xs)
  then obtain m0 where m0: "map_of es x = Some m0" "resolve m0 xs = Inr m"
    by (auto split: option.splits)
  obtain z zs where z: "xs @ q = z # zs" using 3(4) by (cases "xs @ q") auto
  from 3(1)[OF m0(1) m0(2) 3(3) 3(4)] obtain m1 where "alter mk f (xs @ q) m0 = Inr m1" by blast
  then show ?case using m0(1) z by simp
qed




subsection \<open>Well-formedness is kept\<close>

lemma wf_entries_update:
  "wf_entries es \<Longrightarrow> valid_name x \<Longrightarrow> wf_node m \<Longrightarrow> wf_entries (AList.update x m es)"
  by (induction es) auto

lemma wf_entries_delete: "wf_entries es \<Longrightarrow> wf_entries (AList.delete x es)"
  by (induction es) auto

lemma wf_map_of: "wf_entries es \<Longrightarrow> map_of es x = Some m \<Longrightarrow> wf_node m"
  by (induction es) (auto split: if_splits)

lemma wf_Dir_update:
  "wf_node (Dir es) \<Longrightarrow> valid_name x \<Longrightarrow> wf_node m \<Longrightarrow> wf_node (Dir (AList.update x m es))"
  by (simp add: wf_entries_update distinct_update)

lemma wf_Dir_delete: "wf_node (Dir es) \<Longrightarrow> wf_node (Dir (AList.delete x es))"
  by (simp add: wf_entries_delete distinct_delete)

lemma keeps_wfD:
  "keeps_wf f \<Longrightarrow> (\<And>m0. e = Some m0 \<Longrightarrow> wf_node m0) \<Longrightarrow> f e = Inr (Some m) \<Longrightarrow> wf_node m"
  unfolding keeps_wf_def by blast

lemma keeps_wf_write: "keeps_wf (write_op c)"
  unfolding keeps_wf_def
proof (intro allI impI)
  fix e m assume "write_op c e = Inr (Some m)"
  then have "m = File c" by (cases "(c, e)" rule: write_op.cases) auto
  then show "wf_node m" by simp
qed

lemma keeps_wf_mkdir: "keeps_wf mkdir_op"
  unfolding keeps_wf_def
proof (intro allI impI)
  fix e m assume "mkdir_op e = Inr (Some m)"
  then have "m = Dir []" by (cases e) auto
  then show "wf_node m" by simp
qed

lemma keeps_wf_ensure_dir: "keeps_wf ensure_dir_op"
  unfolding keeps_wf_def
proof (intro allI impI)
  fix e m assume w: "\<forall>m0. e = Some m0 \<longrightarrow> wf_node m0" and "ensure_dir_op e = Inr (Some m)"
  then have "m = Dir [] \<or> e = Some m" by (cases e rule: ensure_dir_op.cases) auto
  then show "wf_node m" using w by auto
qed

lemma keeps_wf_remove: "keeps_wf remove_op"
  unfolding keeps_wf_def
proof (intro allI impI)
  fix e m assume "remove_op e = Inr (Some m)"
  then show "wf_node m" by (cases e rule: remove_op.cases) auto
qed

lemma keeps_wf_rmtree: "keeps_wf rmtree_op"
  unfolding keeps_wf_def
proof (intro allI impI)
  fix e m assume "rmtree_op e = Inr (Some m)"
  then show "wf_node m" by (cases e rule: rmtree_op.cases) auto
qed

lemma alter_wf:
  "alter mk f q n = Inr n' \<Longrightarrow> wf_node n \<Longrightarrow> list_all valid_name q \<Longrightarrow> keeps_wf f \<Longrightarrow> wf_node n'"
proof (induction mk f q n arbitrary: n' rule: alter.induct)
  case (1 mk f n)
  then show ?case by (auto split: sum.splits option.splits dest: keeps_wfD)
next
  case (2 mk f x xs c)
  then show ?case by simp
next
  case (3 mk f x es)
  have w: "\<And>m0. map_of es x = Some m0 \<Longrightarrow> wf_node m0" using 3(2) wf_map_of by auto
  show ?case
  proof (cases "f (map_of es x)")
    case (Inl e)
    then show ?thesis using 3(1) by simp
  next
    case (Inr r)
    show ?thesis
    proof (cases r)
      case None
      then show ?thesis using 3(1,2) Inr wf_Dir_delete by auto
    next
      case (Some m)
      have "wf_node m" by (rule keeps_wfD[OF 3(4) w]) (use Inr Some in auto)
      then show ?thesis using 3(1,2,3) Inr Some wf_Dir_update by auto
    qed
  qed
next
  case (4 mk f x y ys es)
  have v: "valid_name x" "list_all valid_name (y # ys)" using 4(5) by simp_all
  show ?case
  proof (cases "map_of es x")
    case None
    then obtain m' where m: "mk" "alter mk f (y # ys) (Dir []) = Inr m'"
      "n' = Dir (AList.update x m' es)"
      using 4(3) by (auto split: sum.splits if_splits)
    have "wf_node m'" by (rule 4(1)[OF None m(1) m(2) _ v(2) 4(6)]) simp
    then show ?thesis using m(3) 4(4) v(1) wf_Dir_update by blast
  next
    case (Some m0)
    then obtain m' where m: "alter mk f (y # ys) m0 = Inr m'" "n' = Dir (AList.update x m' es)"
      using 4(3) by (auto split: sum.splits)
    have "wf_node m0" using 4(4) Some wf_map_of by auto
    then have "wf_node m'" by (rule 4(2)[OF Some m(1) _ v(2) 4(6)])
    then show ?thesis using m(2) 4(4) v(1) wf_Dir_update by blast
  qed
qed

lemma resolve_wf: "resolve n p = Inr m \<Longrightarrow> wf_node n \<Longrightarrow> wf_node m"
proof (induction n p rule: resolve.induct)
  case (1 n)
  then show ?case by simp
next
  case (2 c x xs)
  then show ?case by simp
next
  case (3 es x xs)
  then obtain m0 where m0: "map_of es x = Some m0" "resolve m0 xs = Inr m"
    by (auto split: option.splits)
  have "wf_node m0" using 3(3) m0(1) wf_map_of by auto
  then show ?case using 3(1)[OF m0(1) m0(2)] by simp
qed

subsection \<open>Files named like the manifest do not count\<close>

lemma files_here_update_file:
  assumes "map_of es x = None \<or> (\<exists>old. map_of es x = Some (File old))"
  shows "filter not_manifest_name
           (map (\<lambda>e. (rel @ [fst e], file_content (snd e)))
              (filter (\<lambda>e. \<not> is_dir (snd e)) (AList.update ''dataset.json'' (File c) es))) =
         filter not_manifest_name
           (map (\<lambda>e. (rel @ [fst e], file_content (snd e))) (filter (\<lambda>e. \<not> is_dir (snd e)) es))"
  by (induction es) auto

lemma files_below_dirs_update_file:
  assumes "map_of es x = None \<or> (\<exists>old. map_of es x = Some (File old))"
  shows "files_below_dirs rel (AList.update x (File c) es) = files_below_dirs rel es"
  using assms by (induction es) (auto split: if_splits)

lemma files_here_update_dir:
  assumes "map_of es x = Some (Dir ds)"
  shows "map (\<lambda>e. (rel @ [fst e], file_content (snd e)))
              (filter (\<lambda>e. \<not> is_dir (snd e)) (AList.update x (Dir ds') es)) =
         map (\<lambda>e. (rel @ [fst e], file_content (snd e))) (filter (\<lambda>e. \<not> is_dir (snd e)) es)"
  using assms by (induction es) (auto split: if_splits)

lemma files_below_dirs_update_dir:
  assumes "map_of es x = Some m"
    and "filter P (files_below (rel @ [x]) m') = filter P (files_below (rel @ [x]) m)"
  shows "filter P (files_below_dirs rel (AList.update x m' es)) = filter P (files_below_dirs rel es)"
  using assms by (induction es) (auto split: if_splits)

lemma write_manifest_name_untracked:
  "alter False (write_op c) q n = Inr n' \<Longrightarrow> q \<noteq> [] \<Longrightarrow> last q = ''dataset.json'' \<Longrightarrow>
     filter not_manifest_name (files_below rel n') = filter not_manifest_name (files_below rel n)"
proof (induction "False" "write_op c" q n arbitrary: n' rel rule: alter.induct)
  case (1 n)
  then show ?case by simp
next
  case (2 x xs c')
  then show ?case by simp
next
  case (3 x es)
  then have x: "x = ''dataset.json''" by simp
  from 3(1) have e: "map_of es x = None \<or> (\<exists>old. map_of es x = Some (File old))"
    and n': "n' = Dir (AList.update x (File c) es)"
    by (cases "map_of es x"; cases "the (map_of es x)"; auto)+
  show ?case
    unfolding n' using files_here_update_file[OF e] files_below_dirs_update_file[OF e]
    by (simp add: x)
next
  case (4 x y ys es)
  then obtain m0 m' where m: "map_of es x = Some m0" "alter False (write_op c) (y # ys) m0 = Inr m'"
    "n' = Dir (AList.update x m' es)"
    by (auto split: sum.splits option.splits)
  obtain ds ds' where d: "m0 = Dir ds" "m' = Dir ds'" using alter_Dir[OF m(2)] by auto
  have IH: "filter not_manifest_name (files_below (rel @ [x]) m') =
      filter not_manifest_name (files_below (rel @ [x]) m0)"
    using 4(2)[OF m(1) m(2)] 4(5) by simp
  have a: "map (\<lambda>e. (rel @ [fst e], file_content (snd e)))
              (filter (\<lambda>e. \<not> is_dir (snd e)) (AList.update x m' es)) =
         map (\<lambda>e. (rel @ [fst e], file_content (snd e))) (filter (\<lambda>e. \<not> is_dir (snd e)) es)"
    using files_here_update_dir[of es x ds rel ds'] m(1) d by simp
  have b: "filter not_manifest_name (files_below_dirs rel (AList.update x m' es)) =
      filter not_manifest_name (files_below_dirs rel es)"
    by (rule files_below_dirs_update_dir[OF m(1) IH])
  show ?case unfolding m(3) by (simp add: a b)
qed




subsection \<open>The manifest check\<close>

lemma fs_alter_Inr:
  "(fs_alter mk f st p = Inr st') =
     (\<exists>r. alter mk f (abs_parts st p) (root st) = Inr r \<and> st' = st\<lparr>root := r\<rparr>)"
  by (auto simp: fs_alter_def split: sum.splits)

lemma abs_parts_root_update [simp]: "abs_parts (st\<lparr>root := r\<rparr>) p = abs_parts st p"
  by (simp add: abs_parts_def)

lemma abs_parts_trace_update [simp]: "abs_parts (st\<lparr>trace := t\<rparr>) p = abs_parts st p"
  by (simp add: abs_parts_def)

lemma read_manifest:
  assumes "resolve (root st) (abs_parts st (data_folder self)) = Inr n"
    and "list_all valid_name (parts (data_folder self))"
  shows "read_file st (manifest_file self) =
     (case resolve n [''dataset.json''] of Inl e \<Rightarrow> Inl e | Inr (File c) \<Rightarrow> Inr c
      | Inr (Dir es) \<Rightarrow> Inl IsADirectoryError)"
  by (simp add: read_file_def abs_parts_manifest[OF assms(2)] resolve_append assms(1))

lemma is_dataset_complete_check:
  assumes "resolve (root st) (abs_parts st (data_folder self)) = Inr n" and "wf_node n"
    and "list_all valid_name (parts (data_folder self))"
  shows "is_dataset_complete E self st = check_manifest E n"
  unfolding is_dataset_complete_def calc_all_md5_code_manifest[OF assms(1,2)]
    read_manifest[OF assms(1,3)] check_manifest_def
  by (simp split: sum.splits node.splits option.splits)

lemma check_manifest_True:
  "(check_manifest E n = Inr True) =
     (\<exists>text old. resolve n [''dataset.json''] = Inr (File text) \<and> json_load E text = Some old
        \<and> dict_eq_json (code_manifest E n) old)"
  by (auto simp: check_manifest_def split: sum.splits node.splits option.splits)

lemma check_manifest_missing:
  "resolve n [''dataset.json''] = Inl FileNotFoundError \<Longrightarrow> check_manifest E n = Inr False"
  by (simp add: check_manifest_def)

lemma code_manifest_cong:
  "md5_hexdigest E' = md5_hexdigest E \<Longrightarrow> code_manifest E' n = code_manifest E n"
  by (simp add: code_manifest_def checksums_def)

lemma check_manifest_cong:
  assumes "md5_hexdigest E' = md5_hexdigest E" and "json_load E' = json_load E"
  shows "check_manifest E' n = check_manifest E n"
  unfolding check_manifest_def code_manifest_cong[OF assms(1)] assms(2) by (rule refl)


subsection \<open>Lists: shuffle and slices\<close>


lemma length_swap [simp]: "length (swap xs i j) = length xs"
  by (simp add: swap_def)

lemma mset_swap_list [simp]: "i < length xs \<Longrightarrow> j < length xs \<Longrightarrow> mset (swap xs i j) = mset xs"
  unfolding swap_def by (simp add: mset_swap)

lemma shuffle_from_props:
  "i < length xs \<or> i = 0 \<Longrightarrow>
   length (shuffle_from rng i xs) = length xs \<and> mset (shuffle_from rng i xs) = mset xs"
proof (induction i arbitrary: xs)
  case 0
  then show ?case by simp
next
  case (Suc i)
  then have lt: "Suc i < length xs" by simp
  have "rng (Suc i) mod (Suc i + 1) < Suc i + 1" by (rule mod_less_divisor) simp
  then have j: "rng (Suc i) mod (Suc i + 1) < length xs" using lt by linarith
  have "i < length (swap xs (Suc i) (rng (Suc i) mod (Suc i + 1)))" using lt by simp
  then have "length (shuffle_from rng i (swap xs (Suc i) (rng (Suc i) mod (Suc i + 1)))) =
      length (swap xs (Suc i) (rng (Suc i) mod (Suc i + 1))) \<and>
      mset (shuffle_from rng i (swap xs (Suc i) (rng (Suc i) mod (Suc i + 1)))) =
      mset (swap xs (Suc i) (rng (Suc i) mod (Suc i + 1)))"
    using Suc.IH by blast
  then show ?case using lt j by simp
qed

lemma mset_shuffle: "mset (shuffle rng xs) = mset xs"
proof (cases xs)
  case Nil
  then show ?thesis by (simp add: shuffle_def)
next
  case (Cons a list)
  then have "length xs - 1 < length xs" by simp
  then show ?thesis unfolding shuffle_def using shuffle_from_props by blast
qed

lemma set_shuffle: "set (shuffle rng xs) = set xs"
  using mset_shuffle[of rng xs] by (rule mset_eq_setD)

lemma length_shuffle: "length (shuffle rng xs) = length xs"
  using mset_shuffle[of rng xs] by (rule mset_eq_length)


lemma slice_len_stride:
  assumes "1 \<le> W" "1 \<le> r"
  shows "slice_len (slice_start (int n) (r - 1) W) (slice_stop (int n) W) W =
         stride_count n (nat (r - 1)) (nat W)"
proof (cases "int n \<le> r - 1")
  case True
  then show ?thesis using assms
    by (simp add: slice_start_def slice_stop_def slice_len_def stride_count_def)
next
  case False
  then have lt: "nat (r - 1) < n" using assms by linarith
  have a: "int n - (r - 1) - 1 = int (n - nat (r - 1) - 1)" using lt assms by linarith
  have w: "W = int (nat W)" using assms by simp
  have "(int n - (r - 1) - 1) div W = int ((n - nat (r - 1) - 1) div nat W)"
    by (subst a, subst w, simp only: zdiv_int)
  then show ?thesis using assms False lt
    by (simp add: slice_start_def slice_stop_def slice_len_def stride_count_def nat_add_distrib)
qed

lemma slice_index_stride:
  assumes "1 \<le> W" "1 \<le> r" "\<not> int n \<le> r - 1"
  shows "nat (slice_start (int n) (r - 1) W + int k * W) = nat (r - 1) + k * nat W"
  using assms by (simp add: slice_start_def nat_add_distrib nat_mult_distrib)

lemma stride_count_0: "\<not> a < n \<Longrightarrow> stride_count n a w = 0"
  by (simp add: stride_count_def)

lemma getslice_from_stride:
  assumes "1 \<le> W" "1 \<le> r"
  shows "getslice_from xs (r - 1) W =
     Inr (map (\<lambda>k. xs ! (nat (r - 1) + k * nat W)) [0..<stride_count (length xs) (nat (r - 1)) (nat W)])"
proof (cases "int (length xs) \<le> r - 1")
  case True
  then have "stride_count (length xs) (nat (r - 1)) (nat W) = 0"
    using assms by (intro stride_count_0) linarith
  then show ?thesis using assms slice_len_stride[OF assms, of "length xs"]
    by (simp add: getslice_from_def Let_def)
next
  case False
  show ?thesis using assms slice_len_stride[OF assms, of "length xs"]
      slice_index_stride[OF assms False]
    by (simp add: getslice_from_def Let_def)
qed

lemma stride_positions:
  assumes "0 < w" "a < w"
  shows "(\<lambda>k. a + k * w) ` {0..<stride_count n a w} = {p. p < n \<and> p mod w = a}"
proof (rule set_eqI, rule iffI)
  fix p assume "p \<in> (\<lambda>k. a + k * w) ` {0..<stride_count n a w}"
  then obtain k where k: "k < stride_count n a w" "p = a + k * w" by auto
  then have an: "a < n" and kk: "k \<le> (n - a - 1) div w"
    by (auto simp: stride_count_def split: if_splits)
  have "k * w \<le> ((n - a - 1) div w) * w" using kk by (rule mult_le_mono1)
  also have "\<dots> \<le> n - a - 1" by simp
  finally have "p < n" using k an by linarith
  moreover have "p mod w = a" using k assms by simp
  ultimately show "p \<in> {p. p < n \<and> p mod w = a}" by simp
next
  fix p assume "p \<in> {p. p < n \<and> p mod w = a}"
  then have p: "p < n" "p mod w = a" by auto
  have pe: "p = a + (p div w) * w" using p(2) div_mult_mod_eq[of p w] by linarith
  have an: "a < n" using p pe by linarith
  have "(p div w) * w \<le> n - a - 1" using p pe by linarith
  then have "((p div w) * w) div w \<le> (n - a - 1) div w" by (rule div_le_mono)
  then have "p div w \<le> (n - a - 1) div w" using assms(1) by simp
  then have "p div w < stride_count n a w" using an by (simp add: stride_count_def)
  then have "p div w \<in> {0..<stride_count n a w}" by simp
  then show "p \<in> (\<lambda>k. a + k * w) ` {0..<stride_count n a w}" using pe by (rule rev_image_eqI)
qed

lemma stride_inj: "0 < w \<Longrightarrow> inj (\<lambda>k. a + k * (w::nat))"
  by (simp add: inj_on_def)

lemma stride_count_card:
  assumes "0 < w" "a < w"
  shows "stride_count n a w = card {p. p < n \<and> p mod w = a}"
proof -
  have "card ((\<lambda>k. a + k * w) ` {0..<stride_count n a w}) = card {0..<stride_count n a w}"
    by (rule card_image) (use assms in \<open>simp add: inj_on_def\<close>)
  then show ?thesis using stride_positions[OF assms, of n] by simp
qed


lemma set_getslice_stride:
  assumes "1 \<le> W" "1 \<le> r" "r \<le> W"
  shows "\<exists>ys. getslice_from xs (r - 1) W = Inr ys \<and>
           set ys = (\<lambda>p. xs ! p) ` {p. p < length xs \<and> int p mod W = r - 1}"
proof -
  let ?a = "nat (r - 1)" and ?w = "nat W"
  have w: "0 < ?w" "?a < ?w" using assms by linarith+
  have eqm: "\<And>p. (int p mod W = r - 1) = (p mod ?w = ?a)"
  proof -
    fix p
    have "int (p mod ?w) = int p mod W" using assms by (simp add: zmod_int)
    then show "(int p mod W = r - 1) = (p mod ?w = ?a)" using assms by linarith
  qed
  have "set (map (\<lambda>k. xs ! (?a + k * ?w)) [0..<stride_count (length xs) ?a ?w]) =
        (\<lambda>p. xs ! p) ` ((\<lambda>k. ?a + k * ?w) ` {0..<stride_count (length xs) ?a ?w})"
    by (simp add: image_image)
  also have "\<dots> = (\<lambda>p. xs ! p) ` {p. p < length xs \<and> p mod ?w = ?a}"
    by (simp only: stride_positions[OF w])
  finally show ?thesis using getslice_from_stride[OF assms(1,2), of xs] eqm by simp
qed

lemma init_eq:
  "getslice_from (glob_img_npy st d) (r - 1) W = Inr ys \<Longrightarrow>
   LandmarkShardDataset_init rng st d r W =
     Inr \<lparr>ds_rank = r, ds_worldsize = W, dataset_dir = d, img_names = shuffle rng ys\<rparr>"
  by (simp add: LandmarkShardDataset_init_def)

lemma retained_positions:
  assumes "1 \<le> W" "1 \<le> r" "r \<le> W"
  shows "retained rng st d r W =
           (\<lambda>p. glob_img_npy st d ! p) ` {p. p < length (glob_img_npy st d) \<and> int p mod W = r - 1}"
proof -
  from set_getslice_stride[OF assms, of "glob_img_npy st d"]
  obtain ys where ys1: "getslice_from (glob_img_npy st d) (r - 1) W = Inr ys"
    and ys2: "set ys = (\<lambda>p. glob_img_npy st d ! p) ` {p. p < length (glob_img_npy st d) \<and> int p mod W = r - 1}"
    by (elim exE conjE)
  have "retained rng st d r W = set (shuffle rng ys)"
    unfolding retained_def by (simp add: init_eq[OF ys1])
  then show ?thesis by (simp only: set_shuffle ys2)
qed

text \<open>
  C1. For a directory listing of image files without repeated names and a world size
  \<open>W \<ge> 1\<close>, the construction succeeds for every rank \<open>1 .. W\<close>; the file at listing
  position \<open>p\<close> is retained by rank \<open>r\<close> exactly when \<open>p mod W = r - 1\<close>; the retained
  sets of the ranks cover the listing and are pairwise disjoint.
\<close>

theorem shards_partition_listing:
  assumes "1 \<le> W" and "distinct (glob_img_npy st d)"
  shows "(\<forall>r. 1 \<le> r \<and> r \<le> W \<longrightarrow> (\<exists>ds. LandmarkShardDataset_init (rng r) st d r W = Inr ds))
       \<and> (\<forall>p r. p < length (glob_img_npy st d) \<and> 1 \<le> r \<and> r \<le> W \<longrightarrow>
             (glob_img_npy st d ! p \<in> retained (rng r) st d r W) = (int p mod W = r - 1))
       \<and> (\<Union>r\<in>{1..W}. retained (rng r) st d r W) = set (glob_img_npy st d)
       \<and> (\<forall>r r'. 1 \<le> r \<and> r \<le> W \<and> 1 \<le> r' \<and> r' \<le> W \<and> r \<noteq> r' \<longrightarrow>
             retained (rng r) st d r W \<inter> retained (rng r') st d r' W = {})"
proof -
  let ?xs = "glob_img_npy st d"
  have mem: "(?xs ! p \<in> retained (rng r) st d r W) = (int p mod W = r - 1)"
    if pr: "p < length ?xs" "1 \<le> r" "r \<le> W" for p r
  proof
    have rp: "retained (rng r) st d r W =
        (\<lambda>p. ?xs ! p) ` {p. p < length ?xs \<and> int p mod W = r - 1}"
      by (rule retained_positions[OF assms(1) pr(2,3)])
    assume "?xs ! p \<in> retained (rng r) st d r W"
    then have "?xs ! p \<in> (\<lambda>p. ?xs ! p) ` {p. p < length ?xs \<and> int p mod W = r - 1}"
      by (simp only: rp)
    then obtain q where q0: "q \<in> {p. p < length ?xs \<and> int p mod W = r - 1}" and q3: "?xs ! p = ?xs ! q"
      by (rule imageE)
    from q0 have q1: "q < length ?xs" and q2: "int q mod W = r - 1" by simp_all
    have "p = q" using assms(2) pr(1) q1 q3 by (simp add: nth_eq_iff_index_eq)
    then show "int p mod W = r - 1" using q2 by simp
  next
    have rp: "retained (rng r) st d r W =
        (\<lambda>p. ?xs ! p) ` {p. p < length ?xs \<and> int p mod W = r - 1}"
      by (rule retained_positions[OF assms(1) pr(2,3)])
    assume "int p mod W = r - 1"
    then have "p \<in> {p. p < length ?xs \<and> int p mod W = r - 1}" using pr(1) by simp
    then have "?xs ! p \<in> (\<lambda>p. ?xs ! p) ` {p. p < length ?xs \<and> int p mod W = r - 1}"
      by (rule imageI)
    then show "?xs ! p \<in> retained (rng r) st d r W" by (simp only: rp)
  qed
  have ok: "\<exists>ds. LandmarkShardDataset_init (rng r) st d r W = Inr ds" if pr: "1 \<le> r" "r \<le> W" for r
  proof -
    from set_getslice_stride[OF assms(1) pr, of ?xs]
    obtain ys where "getslice_from ?xs (r - 1) W = Inr ys" by (elim exE conjE)
    then show ?thesis using init_eq by blast
  qed
  have sub: "retained (rng r) st d r W \<subseteq> set ?xs" if pr: "1 \<le> r" "r \<le> W" for r
  proof
    fix x assume "x \<in> retained (rng r) st d r W"
    then have "x \<in> (\<lambda>p. ?xs ! p) ` {p. p < length ?xs \<and> int p mod W = r - 1}"
      by (simp only: retained_positions[OF assms(1) pr])
    then obtain q where q0: "q \<in> {p. p < length ?xs \<and> int p mod W = r - 1}" and q3: "x = ?xs ! q"
      by (rule imageE)
    from q0 have "q < length ?xs" by simp
    then show "x \<in> set ?xs" using q3 by simp
  qed
  have cover: "(\<Union>r\<in>{1..W}. retained (rng r) st d r W) = set ?xs"
  proof
    show "(\<Union>r\<in>{1..W}. retained (rng r) st d r W) \<subseteq> set ?xs"
    proof
      fix x assume "x \<in> (\<Union>r\<in>{1..W}. retained (rng r) st d r W)"
      then obtain r where r: "1 \<le> r" "r \<le> W" "x \<in> retained (rng r) st d r W" by auto
      then show "x \<in> set ?xs" using sub[OF r(1,2)] by blast
    qed
  next
    show "set ?xs \<subseteq> (\<Union>r\<in>{1..W}. retained (rng r) st d r W)"
    proof
      fix x assume "x \<in> set ?xs"
      then obtain p where p: "p < length ?xs" "?xs ! p = x" unfolding in_set_conv_nth by blast
      let ?r = "int p mod W + 1"
      have "0 \<le> int p mod W" "int p mod W < W" using assms(1) by simp_all
      then have r: "1 \<le> ?r" "?r \<le> W" by linarith+
      have "x \<in> retained (rng ?r) st d ?r W" using mem[OF p(1) r] p(2) by simp
      then show "x \<in> (\<Union>r\<in>{1..W}. retained (rng r) st d r W)" using r by auto
    qed
  qed
  have disj: "retained (rng r) st d r W \<inter> retained (rng r') st d r' W = {}"
    if rr: "1 \<le> r" "r \<le> W" "1 \<le> r'" "r' \<le> W" "r \<noteq> r'" for r r'
  proof (rule ccontr)
    assume "retained (rng r) st d r W \<inter> retained (rng r') st d r' W \<noteq> {}"
    then obtain x where x: "x \<in> retained (rng r) st d r W" "x \<in> retained (rng r') st d r' W" by auto
    from x(1) have "x \<in> set ?xs" using sub[OF rr(1,2)] by blast
    then obtain p where p: "p < length ?xs" "?xs ! p = x" unfolding in_set_conv_nth by blast
    have "int p mod W = r - 1" "int p mod W = r' - 1"
      using mem[OF p(1) rr(1,2)] mem[OF p(1) rr(3,4)] x p(2) by simp_all
    then show False using rr(5) by simp
  qed
  show ?thesis
  proof (intro conjI allI impI)
    fix r assume "1 \<le> r \<and> r \<le> W"
    then show "\<exists>ds. LandmarkShardDataset_init (rng r) st d r W = Inr ds" using ok by blast
  next
    fix p r assume "p < length ?xs \<and> 1 \<le> r \<and> r \<le> W"
    then show "(?xs ! p \<in> retained (rng r) st d r W) = (int p mod W = r - 1)" using mem by blast
  next
    show "(\<Union>r\<in>{1..W}. retained (rng r) st d r W) = set ?xs" by (rule cover)
  next
    fix r r' assume "1 \<le> r \<and> r \<le> W \<and> 1 \<le> r' \<and> r' \<le> W \<and> r \<noteq> r'"
    then show "retained (rng r) st d r W \<inter> retained (rng r') st d r' W = {}" using disj by blast
  qed
qed

lemma glob_five_samples:
  "glob_img_npy five_samples data_dir =
     [Path True [''home'', ''ws'', ''data'', ''img_0.npy''],
      Path True [''home'', ''ws'', ''data'', ''img_1.npy''],
      Path True [''home'', ''ws'', ''data'', ''img_2.npy''],
      Path True [''home'', ''ws'', ''data'', ''img_3.npy''],
      Path True [''home'', ''ws'', ''data'', ''img_4.npy'']]"
  by (simp add: glob_img_npy_def five_samples_def data_dir_def abs_parts_def
      fnmatch_img_npy_def path_join_def)

theorem shards_partition_listing_witness:
  "(1::int) \<le> 2 \<and> distinct (glob_img_npy five_samples data_dir)
   \<and> (\<Union>r\<in>{1..2}. retained (\<lambda>i. 0) five_samples data_dir r 2) = set (glob_img_npy five_samples data_dir)
   \<and> retained (\<lambda>i. 0) five_samples data_dir 1 2 \<inter> retained (\<lambda>i. 0) five_samples data_dir 2 2 = {}
   \<and> (glob_img_npy five_samples data_dir ! 3 \<in> retained (\<lambda>i. 0) five_samples data_dir 2 2)"
proof -
  have h1: "(1::int) \<le> 2" by simp
  have h2: "distinct (glob_img_npy five_samples data_dir)" by (simp add: glob_five_samples)
  have l: "(3::nat) < length (glob_img_npy five_samples data_dir)" by (simp add: glob_five_samples)
  note t = shards_partition_listing[OF h1 h2, of "\<lambda>r i. 0"]
  have a: "(\<Union>r\<in>{1..2}. retained (\<lambda>i. 0) five_samples data_dir r 2) = set (glob_img_npy five_samples data_dir)"
    using t by (elim conjE)
  have b: "\<forall>r r'. 1 \<le> r \<and> r \<le> 2 \<and> 1 \<le> r' \<and> r' \<le> 2 \<and> r \<noteq> r' \<longrightarrow>
             retained (\<lambda>i. 0) five_samples data_dir r 2 \<inter> retained (\<lambda>i. 0) five_samples data_dir r' 2 = {}"
    using t by (elim conjE)
  have c: "\<forall>p r. p < length (glob_img_npy five_samples data_dir) \<and> 1 \<le> r \<and> r \<le> 2 \<longrightarrow>
             (glob_img_npy five_samples data_dir ! p \<in> retained (\<lambda>i. 0) five_samples data_dir r 2) = (int p mod 2 = r - 1)"
    using t by (elim conjE)
  have b': "retained (\<lambda>i. 0) five_samples data_dir 1 2 \<inter> retained (\<lambda>i. 0) five_samples data_dir 2 2 = {}"
    using b[rule_format, of 1 2] by simp
  have c': "glob_img_npy five_samples data_dir ! 3 \<in> retained (\<lambda>i. 0) five_samples data_dir 2 2"
    using c[rule_format, of 3 2] l by simp
  show ?thesis using h1 h2 a b' c' by (intro conjI)
qed


lemma stride_count_ceiling:
  assumes "0 < w" "a < n"
  shows "int (stride_count n a w) = \<lceil>real_of_int (int n - int a) / real_of_int (int w)\<rceil>"
proof -
  let ?q = "(n - a - 1) div w"
  have m: "n - a - 1 = ?q * w + (n - a - 1) mod w" by simp
  have r: "(n - a - 1) mod w < w" using assms(1) by simp
  have lo: "?q * w < n - a" using m assms(2) by linarith
  have "n - a - 1 < ?q * w + w" using m r by linarith
  then have hi: "n - a \<le> (?q + 1) * w" by simp
  have wpos: "0 < real w" using assms(1) by simp
  have x: "real_of_int (int n - int a) = real (n - a)" using assms(2) by (simp add: of_nat_diff)
  have l: "real ?q < real (n - a) / real w"
  proof -
    have "real ?q * real w < real (n - a)" using lo by (metis of_nat_mult of_nat_less_iff)
    then show ?thesis using wpos by (simp only: pos_less_divide_eq)
  qed
  have u: "real (n - a) / real w \<le> real ?q + 1"
  proof -
    have "real (n - a) \<le> real (?q + 1) * real w" using hi by (metis of_nat_mult of_nat_le_iff)
    then have "real (n - a) / real w \<le> real (?q + 1)" using wpos by (simp only: pos_divide_le_eq)
    also have "real (?q + 1) = real ?q + 1" by simp
    finally show ?thesis .
  qed
  have e: "real_of_int (int (?q + 1)) = real ?q + 1" by simp
  have "\<lceil>real (n - a) / real w\<rceil> = int (?q + 1)"
  proof (rule ceiling_unique)
    show "real_of_int (int (?q + 1)) - 1 < real (n - a) / real w" unfolding e using l by linarith
    show "real (n - a) / real w \<le> real_of_int (int (?q + 1))" unfolding e using u by linarith
  qed
  then show ?thesis using assms(2) x by (simp add: stride_count_def)
qed

lemma sorted_stride: "sorted (map (\<lambda>k. a + k * (w::nat)) [0..<c])"
  by (induction c) (simp_all add: sorted_append)

lemma distinct_stride: "0 < w \<Longrightarrow> distinct (map (\<lambda>k. a + k * (w::nat)) [0..<c])"
  by (simp add: distinct_map inj_on_def)

lemma stride_list_filter:
  assumes "0 < w" "a < w"
  shows "map (\<lambda>k. a + k * w) [0..<stride_count n a w] = filter (\<lambda>p. p mod w = a) [0..<n]"
proof (rule sorted_distinct_set_unique)
  show "sorted (map (\<lambda>k. a + k * w) [0..<stride_count n a w])" by (rule sorted_stride)
  show "distinct (map (\<lambda>k. a + k * w) [0..<stride_count n a w])" by (rule distinct_stride[OF assms(1)])
  show "sorted (filter (\<lambda>p. p mod w = a) [0..<n])" by (rule sorted_wrt_filter) simp
  show "distinct (filter (\<lambda>p. p mod w = a) [0..<n])" by simp
  have "set (map (\<lambda>k. a + k * w) [0..<stride_count n a w]) = (\<lambda>k. a + k * w) ` {0..<stride_count n a w}"
    by simp
  also have "\<dots> = {p. p < n \<and> p mod w = a}" by (rule stride_positions[OF assms])
  also have "\<dots> = set (filter (\<lambda>p. p mod w = a) [0..<n])" by auto
  finally show "set (map (\<lambda>k. a + k * w) [0..<stride_count n a w]) = set (filter (\<lambda>p. p mod w = a) [0..<n])" .
qed

lemma int_mod_eq_nat:
  assumes "1 \<le> W" "1 \<le> r"
  shows "(int p mod W = r - 1) = (p mod nat W = nat (r - 1))"
proof -
  have "int (p mod nat W) = int p mod W" using assms by (simp add: zmod_int)
  then show ?thesis using assms by linarith
qed

lemma getslice_stride_filter:
  assumes "1 \<le> W" "1 \<le> r" "r \<le> W"
  shows "getslice_from xs (r - 1) W =
           Inr (map (\<lambda>p. xs ! p) (filter (\<lambda>p. int p mod W = r - 1) [0..<length xs]))"
proof -
  let ?a = "nat (r - 1)" and ?w = "nat W"
  have w: "0 < ?w" "?a < ?w" using assms by linarith+
  have "map (\<lambda>k. xs ! (?a + k * ?w)) [0..<stride_count (length xs) ?a ?w] =
        map (\<lambda>p. xs ! p) (map (\<lambda>k. ?a + k * ?w) [0..<stride_count (length xs) ?a ?w])"
    by (simp add: comp_def)
  also have "\<dots> = map (\<lambda>p. xs ! p) (filter (\<lambda>p. p mod ?w = ?a) [0..<length xs])"
    by (simp only: stride_list_filter[OF w])
  also have "\<dots> = map (\<lambda>p. xs ! p) (filter (\<lambda>p. int p mod W = r - 1) [0..<length xs])"
    by (simp only: int_mod_eq_nat[OF assms(1,2)])
  finally show ?thesis by (simp only: getslice_from_stride[OF assms(1,2)])
qed

lemma length_getslice_stride:
  assumes "1 \<le> W" "1 \<le> r" "r \<le> W"
  shows "length (filter (\<lambda>p. int p mod W = r - 1) [0..<n]) = stride_count n (nat (r - 1)) (nat W)"
proof -
  let ?a = "nat (r - 1)" and ?w = "nat W"
  have w: "0 < ?w" "?a < ?w" using assms by linarith+
  have "filter (\<lambda>p. int p mod W = r - 1) [0..<n] = filter (\<lambda>p. p mod ?w = ?a) [0..<n]"
    by (simp only: int_mod_eq_nat[OF assms(1,2)])
  also have "\<dots> = map (\<lambda>k. ?a + k * ?w) [0..<stride_count n ?a ?w]"
    by (simp only: stride_list_filter[OF w])
  finally show ?thesis by simp
qed

text \<open>
  C2. For a world size \<open>W \<ge> 1\<close> and a rank \<open>1 \<le> r \<le> W\<close> the construction succeeds and
  retains the files at the listing positions \<open>p\<close> with \<open>p mod W = r - 1\<close>; the length it
  reports is the number of these positions, which is \<open>\<lceil>(N - (r - 1)) / W\<rceil>\<close> when
  \<open>r - 1 < N\<close> and \<open>0\<close> otherwise.
\<close>

theorem shard_length:
  assumes "1 \<le> W" and "1 \<le> r" and "r \<le> W"
  shows "\<exists>ds. LandmarkShardDataset_init rng st d r W = Inr ds
       \<and> len ds = int (card {p. p < length (glob_img_npy st d) \<and> int p mod W = r - 1})
       \<and> len ds = (if r - 1 < int (length (glob_img_npy st d))
                   then \<lceil>real_of_int (int (length (glob_img_npy st d)) - (r - 1)) / real_of_int W\<rceil>
                   else 0)
       \<and> mset (img_names ds) =
           mset (map (\<lambda>p. glob_img_npy st d ! p)
                  (filter (\<lambda>p. int p mod W = r - 1) [0..<length (glob_img_npy st d)]))"
proof -
  let ?xs = "glob_img_npy st d"
  let ?ys = "map (\<lambda>p. ?xs ! p) (filter (\<lambda>p. int p mod W = r - 1) [0..<length ?xs])"
  let ?ds = "\<lparr>ds_rank = r, ds_worldsize = W, dataset_dir = d, img_names = shuffle rng ?ys\<rparr>"
  let ?a = "nat (r - 1)" and ?w = "nat W"
  have w: "0 < ?w" "?a < ?w" using assms by linarith+
  have i: "LandmarkShardDataset_init rng st d r W = Inr ?ds"
    by (rule init_eq[OF getslice_stride_filter[OF assms]])
  have l: "len ?ds = int (stride_count (length ?xs) ?a ?w)"
    by (simp add: len_def length_shuffle length_getslice_stride[OF assms])
  have s: "{p. p < length ?xs \<and> int p mod W = r - 1} = {p. p < length ?xs \<and> p mod ?w = ?a}"
    by (simp only: int_mod_eq_nat[OF assms(1,2)])
  have c: "len ?ds = int (card {p. p < length ?xs \<and> int p mod W = r - 1})"
    by (simp only: l s stride_count_card[OF w])
  have f: "len ?ds = (if r - 1 < int (length ?xs)
                   then \<lceil>real_of_int (int (length ?xs) - (r - 1)) / real_of_int W\<rceil> else 0)"
  proof (cases "r - 1 < int (length ?xs)")
    case True
    then have lt: "?a < length ?xs" using assms by linarith
    have e1: "int ?a = r - 1" and e2: "int ?w = W" using assms by simp_all
    show ?thesis using True stride_count_ceiling[OF w(1) lt] by (simp only: l e1 e2 if_True)
  next
    case False
    then have "\<not> ?a < length ?xs" using assms by linarith
    then show ?thesis using False by (simp add: l stride_count_0)
  qed
  have m: "mset (img_names ?ds) = mset ?ys" by (simp add: mset_shuffle)
  show ?thesis using i c f m by blast
qed

theorem shard_length_witness:
  "(\<exists>ds. LandmarkShardDataset_init (\<lambda>i. 0) five_samples data_dir 1 2 = Inr ds \<and> len ds = 3
      \<and> set (img_names ds) = {Path True [''home'', ''ws'', ''data'', ''img_0.npy''],
           Path True [''home'', ''ws'', ''data'', ''img_2.npy''],
           Path True [''home'', ''ws'', ''data'', ''img_4.npy'']})
   \<and> (\<exists>ds. LandmarkShardDataset_init (\<lambda>i. 0) five_samples data_dir 2 2 = Inr ds \<and> len ds = 2
      \<and> set (img_names ds) = {Path True [''home'', ''ws'', ''data'', ''img_1.npy''],
           Path True [''home'', ''ws'', ''data'', ''img_3.npy'']})"
proof -
  have u: "[0..<5] = [0, 1, 2, 3, 4::nat]" by (simp add: upt_rec)
  have c1: "\<lceil>(5 - (1 - 1)) / (2::real)\<rceil> = 3" by (rule ceiling_unique) simp_all
  have c2: "\<lceil>(5 - (2 - 1)) / (2::real)\<rceil> = 2" by (rule ceiling_unique) simp_all
  from shard_length[of 2 1 "\<lambda>i. 0" five_samples data_dir]
  obtain ds1 where a1: "LandmarkShardDataset_init (\<lambda>i. 0) five_samples data_dir 1 2 = Inr ds1"
    and a2: "len ds1 = (if 1 - 1 < int (length (glob_img_npy five_samples data_dir))
                   then \<lceil>real_of_int (int (length (glob_img_npy five_samples data_dir)) - (1 - 1)) / real_of_int 2\<rceil>
                   else 0)"
    and a3: "mset (img_names ds1) = mset (map (\<lambda>p. glob_img_npy five_samples data_dir ! p)
                  (filter (\<lambda>p. int p mod 2 = 1 - 1) [0..<length (glob_img_npy five_samples data_dir)]))"
    by auto
  from shard_length[of 2 2 "\<lambda>i. 0" five_samples data_dir]
  obtain ds2 where b1: "LandmarkShardDataset_init (\<lambda>i. 0) five_samples data_dir 2 2 = Inr ds2"
    and b2: "len ds2 = (if 2 - 1 < int (length (glob_img_npy five_samples data_dir))
                   then \<lceil>real_of_int (int (length (glob_img_npy five_samples data_dir)) - (2 - 1)) / real_of_int 2\<rceil>
                   else 0)"
    and b3: "mset (img_names ds2) = mset (map (\<lambda>p. glob_img_npy five_samples data_dir ! p)
                  (filter (\<lambda>p. int p mod 2 = 2 - 1) [0..<length (glob_img_npy five_samples data_dir)]))"
    by auto
  have l1: "len ds1 = 3" using a2 c1 by (simp add: glob_five_samples)
  have l2: "len ds2 = 2" using b2 c2 by (simp add: glob_five_samples)
  have s1: "set (img_names ds1) = {Path True [''home'', ''ws'', ''data'', ''img_0.npy''],
           Path True [''home'', ''ws'', ''data'', ''img_2.npy''],
           Path True [''home'', ''ws'', ''data'', ''img_4.npy'']}"
    using mset_eq_setD[OF a3] by (simp add: glob_five_samples u)
  have s2: "set (img_names ds2) = {Path True [''home'', ''ws'', ''data'', ''img_1.npy''],
           Path True [''home'', ''ws'', ''data'', ''img_3.npy'']}"
    using mset_eq_setD[OF b3] by (simp add: glob_five_samples u)
  show ?thesis using a1 l1 s1 b1 l2 s2 by blast
qed

text \<open>
  C8. Whatever the \<open>dataset_type\<close> argument is, \<open>get_dataset\<close> gives the result it gives
  for \<^verbatim>\<open>'train'\<close>: the dataset constructed from the data folder, the rank and the world
  size of the descriptor.
\<close>

theorem get_dataset_ignores_dataset_type:
  "get_dataset rng st self dataset_type = get_dataset rng st self ''train''
   \<and> get_dataset rng st self dataset_type =
       LandmarkShardDataset_init rng st (data_folder self) (rank self) (worldsize self)"
  by (simp add: get_dataset_def)


subsection \<open>Indexed access and the constructor\<close>

lemma and_then_Inr_iff: "(and_then m f = Inr y) = (\<exists>x. m = Inr x \<and> f x = Inr y)"
  by (cases m) simp_all

lemma and_then_Inl_iff: "(and_then m f = Inl e) = (m = Inl e \<or> (\<exists>x. m = Inr x \<and> f x = Inl e))"
  by (cases m) simp_all






lemma str_nat_nonempty: "str_nat n \<noteq> []"
  by (subst str_nat.simps) simp

lemma digit_char_eq_1: "n < 10 \<Longrightarrow> (digit_char n = CHR ''1'') = (n = 1)"
proof
  assume n: "n < 10" and "digit_char n = CHR ''1''"
  then have "(of_char (char_of (48 + n)) :: nat) = of_char CHR ''1''" by (simp add: digit_char_def)
  then show "n = 1" using n by simp
next
  assume "n = 1"
  moreover have "digit_char 1 = CHR ''1''" by code_simp
  ultimately show "digit_char n = CHR ''1''" by simp
qed

lemma str_nat_eq_1: "(str_nat n = ''1'') = (n = 1)"
proof (cases "n < 10")
  case True
  then have "str_nat n = [digit_char n]" by (subst str_nat.simps) simp
  then show ?thesis using digit_char_eq_1[OF True] by simp
next
  case False
  then have "str_nat n = str_nat (n div 10) @ [digit_char (n mod 10)]" by (subst str_nat.simps) simp
  then have "length (str_nat n) = length (str_nat (n div 10)) + 1" by simp
  moreover have "0 < length (str_nat (n div 10))" using str_nat_nonempty by simp
  ultimately have "str_nat n \<noteq> ''1''" by auto
  then show ?thesis using False by simp
qed

text \<open>
  C5. When the constructor has parsed the rank and the world size, the download has
  returned, a dataset has been constructed and its item 0 has been loaded, the
  constructor raises \<^verbatim>\<open>AssertionError\<close> if the target of that item is not
  one-dimensional, whatever its number of dimensions is, and otherwise returns the
  descriptor with the shapes it probed. No dataset reaches a caller in the first case:
  there is no descriptor to call \<^verbatim>\<open>get_dataset\<close> on.
\<close>

theorem constructor_asserts_target_shape:
  assumes "map (py_int E) (split_sep CHR '','' rank_worldsize) = [Some r, Some w]"
    and "self = \<lparr>rank = r, worldsize = w, data_folder = path_join_str (Path True (cwd st)) folder,
                  sample_shape = [], target_shape = []\<rparr>"
    and "download_data E self st = Inr st1"
    and "get_dataset rng st1 self ''train'' = Inr ds"
    and "getitem E st1 ds 0 = Inr (sample, target)"
  shows "LandmarkShardDescriptor_init E rng st folder rank_worldsize =
           (if length (shape target) = 1
            then Inr (self\<lparr>sample_shape := map str_nat (shape sample), target_shape := ''1''\<rparr>, st1)
            else Inl AssertionError)"
proof -
  have "LandmarkShardDescriptor_init E rng st folder rank_worldsize =
      (if str_nat (length (shape target)) = ''1''
       then Inr (self\<lparr>sample_shape := map str_nat (shape sample),
                       target_shape := str_nat (length (shape target))\<rparr>, st1)
       else Inl AssertionError)"
    unfolding LandmarkShardDescriptor_init_def assms(1)
    using assms(3,4,5) by (simp add: Let_def assms(2)[symmetric])
  then show ?thesis by (simp add: str_nat_eq_1)
qed

lemma one_sample_complete: "download_data example_env example_self one_sample = Inr one_sample"
  by code_simp

lemma bad_target_complete: "download_data example_env example_self bad_target = Inr bad_target"
  by code_simp

theorem constructor_asserts_target_shape_witness:
  "LandmarkShardDescriptor_init example_env (\<lambda>i. 0) one_sample ''data'' ''1, 1'' =
     Inr (example_self\<lparr>sample_shape := [''1'', ''2''], target_shape := ''1''\<rparr>, one_sample)
   \<and> LandmarkShardDescriptor_init example_env (\<lambda>i. 0) bad_target ''data'' ''1, 1'' = Inl AssertionError"
proof -
  let ?ds = "\<lparr>ds_rank = 1, ds_worldsize = 1, dataset_dir = data_dir,
      img_names = [Path True [''home'', ''ws'', ''data'', ''img_0.npy'']]\<rparr>"
  have p: "map (py_int example_env) (split_sep CHR '','' ''1, 1'') = [Some 1, Some 1]"
    by code_simp
  have s1: "example_self = \<lparr>rank = 1, worldsize = 1,
      data_folder = path_join_str (Path True (cwd one_sample)) ''data'', sample_shape = [], target_shape = []\<rparr>"
    by code_simp
  have s2: "example_self = \<lparr>rank = 1, worldsize = 1,
      data_folder = path_join_str (Path True (cwd bad_target)) ''data'', sample_shape = [], target_shape = []\<rparr>"
    by code_simp
  have g1: "get_dataset (\<lambda>i. 0) one_sample example_self ''train'' = Inr ?ds" by code_simp
  have g2: "get_dataset (\<lambda>i. 0) bad_target example_self ''train'' = Inr ?ds" by code_simp
  have i1: "getitem example_env one_sample ?ds 0 =
      Inr (\<lparr>shape = [1, 2], elems = [105, 48]\<rparr>, \<lparr>shape = [2], elems = [107, 48]\<rparr>)"
    by code_simp
  have i2: "getitem example_env bad_target ?ds 0 =
      Inr (\<lparr>shape = [1, 2], elems = [105, 48]\<rparr>, \<lparr>shape = [1, 2], elems = [105, 57]\<rparr>)"
    by code_simp
  have n: "str_nat (Suc 0) = ''1''" "str_nat 2 = ''2''" by code_simp+
  have a: "LandmarkShardDescriptor_init example_env (\<lambda>i. 0) one_sample ''data'' ''1, 1'' =
     Inr (example_self\<lparr>sample_shape := [''1'', ''2''], target_shape := ''1''\<rparr>, one_sample)"
    using constructor_asserts_target_shape[OF p s1 one_sample_complete g1 i1] by (simp add: n)
  have b: "LandmarkShardDescriptor_init example_env (\<lambda>i. 0) bad_target ''data'' ''1, 1'' = Inl AssertionError"
    using constructor_asserts_target_shape[OF p s2 bad_target_complete g2 i2] by simp
  show ?thesis using a b by (rule conjI)
qed

subsection \<open>The operations keep the file system well-formed\<close>

lemma split_sep_tokens: "t \<in> set (split_sep sep s) \<Longrightarrow> sep \<notin> set t"
proof (induction s arbitrary: t)
  case Nil
  then show ?case by simp
next
  case (Cons c cs)
  show ?case
  proof (cases "c = sep")
    case True
    then show ?thesis using Cons by auto
  next
    case False
    obtain u us where u: "split_sep sep cs = u # us"
      by (cases "split_sep sep cs") (cases cs; simp split: if_splits list.splits)+
    then have "t = c # u \<or> t \<in> set us" using Cons.prems False by simp
    then show ?thesis using Cons.IH u False by auto
  qed
qed

lemma valid_parts_path_of_str: "list_all valid_name (parts (path_of_str s))"
  by (auto simp: path_of_str_def list_all_iff valid_name_def dest: split_sep_tokens)

lemma valid_parts_member_path: "list_all valid_name (parts (member_path s))"
  using valid_parts_path_of_str[of s] by (simp add: member_path_def list_all_iff)

lemma valid_parts_path_join:
  "list_all valid_name (parts p) \<Longrightarrow> list_all valid_name (parts q) \<Longrightarrow>
     list_all valid_name (parts (path_join p q))"
  by (simp add: path_join_def)

lemma valid_parts_path_join_str:
  "list_all valid_name (parts p) \<Longrightarrow> list_all valid_name (parts (path_join_str p s))"
  by (simp add: path_join_str_def valid_parts_path_join valid_parts_path_of_str)

lemma valid_abs_parts:
  "wf_state st \<Longrightarrow> list_all valid_name (parts p) \<Longrightarrow> list_all valid_name (abs_parts st p)"
  by (simp add: wf_state_def abs_parts_def)

lemma wf_state_fs_alter:
  assumes "fs_alter mk f st p = Inr st'" "wf_state st" "list_all valid_name (parts p)" "keeps_wf f"
  shows "wf_state st'"
proof -
  from assms(1) obtain r where r: "alter mk f (abs_parts st p) (root st) = Inr r" "st' = st\<lparr>root := r\<rparr>"
    unfolding fs_alter_Inr by blast
  have "wf_node r"
    by (rule alter_wf[OF r(1) _ valid_abs_parts[OF assms(2,3)] assms(4)])
       (use assms(2) in \<open>simp add: wf_state_def\<close>)
  then show ?thesis using assms(2) r(2) by (simp add: wf_state_def)
qed

lemma wf_state_trace [simp]: "wf_state (st\<lparr>trace := t\<rparr>) = wf_state st"
  by (simp add: wf_state_def)

lemma wf_state_np_save: "np_save E st file a = Inr st' \<Longrightarrow> wf_state st \<Longrightarrow> wf_state st'"
  unfolding np_save_def write_file_def
  by (rule wf_state_fs_alter[OF _ _ valid_parts_path_of_str keeps_wf_write])

lemma cwd_fs_alter: "fs_alter mk f st p = Inr st' \<Longrightarrow> cwd st' = cwd st \<and> trace st' = trace st"
  unfolding fs_alter_Inr by auto

lemma process_rows_step:
  assumes "process_rows E data_df keypoints cur_folder (i # rest) st = Inr st'"
  shows "\<exists>s arr img st1 row y st2.
      df_cell data_df ''Image'' i = Inr (Str s)
    \<and> np_array_float32 (float32_of_str E)
         (map (\<lambda>x. if x = [] then ''0'' else x) (split_sep CHR '' '' s)) = Inr arr
    \<and> reshape arr [96, 96] = Inr img
    \<and> np_save E st (cur_folder @ ''img_'' @ str_nat i @ ''.npy'') img = Inr st1
    \<and> iloc_row keypoints i = Inr row
    \<and> np_array_float32 (float32_of_cell E) row = Inr y
    \<and> np_save E st1 (cur_folder @ ''keypoints_'' @ str_nat i @ ''.npy'') y = Inr st2
    \<and> process_rows E data_df keypoints cur_folder rest st2 = Inr st'"
proof -
  obtain c where c: "df_cell data_df ''Image'' i = Inr c"
    using assms by (cases "df_cell data_df ''Image'' i") simp_all
  obtain s where s: "c = Str s" using assms c by (cases c) simp_all
  show ?thesis using assms by (simp add: c s and_then_Inr_iff Let_def)
qed

lemma wf_state_process_rows:
  "process_rows E data_df keypoints cur_folder rows st = Inr st' \<Longrightarrow> wf_state st \<Longrightarrow> wf_state st'"
proof (induction rows arbitrary: st)
  case Nil
  then show ?case by simp
next
  case (Cons i rest)
  from process_rows_step[OF Cons.prems(1)] obtain img st1 y st2 where
    s: "np_save E st (cur_folder @ ''img_'' @ str_nat i @ ''.npy'') img = Inr st1"
       "np_save E st1 (cur_folder @ ''keypoints_'' @ str_nat i @ ''.npy'') y = Inr st2"
       "process_rows E data_df keypoints cur_folder rest st2 = Inr st'"
    by blast
  have "wf_state st1" by (rule wf_state_np_save[OF s(1) Cons.prems(2)])
  then have "wf_state st2" by (rule wf_state_np_save[OF s(2)])
  then show ?case by (rule Cons.IH[OF s(3)])
qed

lemma wf_state_process_data:
  "process_data E self st name = Inr st' \<Longrightarrow> wf_state st \<Longrightarrow> wf_state st'"
  unfolding process_data_def
  by (auto simp: and_then_Inr_iff Let_def split: option.splits dest: wf_state_process_rows)

lemma wf_state_extract_members:
  "extract_members st d ms = Inr st' \<Longrightarrow> wf_state st \<Longrightarrow> list_all valid_name (parts d) \<Longrightarrow> wf_state st'"
proof (induction ms arbitrary: st)
  case Nil
  then show ?case by simp
next
  case (Cons m ms)
  let ?f = "if fst m \<noteq> [] \<and> last (fst m) = CHR ''/'' then ensure_dir_op else write_op (snd m)"
  from Cons.prems(1) obtain st1 where
    s: "fs_alter True ?f st (path_join d (member_path (fst m))) = Inr st1"
       "extract_members st1 d ms = Inr st'"
    by (auto simp: and_then_Inr_iff)
  have k: "keeps_wf ?f" by (simp add: keeps_wf_ensure_dir keeps_wf_write)
  have v: "list_all valid_name (parts (path_join d (member_path (fst m))))"
    by (rule valid_parts_path_join[OF Cons.prems(3) valid_parts_member_path])
  have "wf_state st1" by (rule wf_state_fs_alter[OF s(1) Cons.prems(2) v k])
  then show ?case by (rule Cons.IH[OF s(2) _ Cons.prems(3)])
qed

lemma valid_single: "valid_name n \<Longrightarrow> list_all valid_name (parts (Path False [n]))"
  by simp

lemma wf_state_fetch_and_convert:
  assumes "fetch_and_convert E self st = Inr st'" "wf_state st" "list_all valid_name (parts (data_folder self))"
  shows "\<exists>st5. wf_state st5 \<and> save_all_md5 E self st5 = Inr st'"
proof -
  let ?d = "data_folder self"
  from assms(1) obtain st1 st2 st3 st4 st5 where
    s: "competition_download_file E st ?d = Inr st1"
       "extractall E st1 (path_join_str ?d ''training.zip'') ?d = Inr st2"
       "os_remove st2 (path_join_str ?d ''training.zip'') = Inr st3"
       "process_data E self st3 ''training.csv'' = Inr st4"
       "os_remove (st4\<lparr>trace := trace st4 @ [Converted]\<rparr>) (path_join_str ?d ''training.csv'') = Inr st5"
       "save_all_md5 E self st5 = Inr st'"
    unfolding fetch_and_convert_def by (auto simp: and_then_Inr_iff)
  have vz: "valid_name ''training.zip''" by (simp add: valid_name_def)
  from s(1) obtain bytes st1' where
    d: "fs_alter True (write_op bytes) st (path_join ?d (Path False [''training.zip''])) = Inr st1'"
       "st1 = st1'\<lparr>trace := trace st1' @ [Downloaded]\<rparr>"
    unfolding competition_download_file_def by (auto simp: and_then_Inr_iff split: option.splits)
  have "wf_state st1'"
    by (rule wf_state_fs_alter[OF d(1) assms(2) valid_parts_path_join[OF assms(3) valid_single[OF vz]]
          keeps_wf_write])
  then have w1: "wf_state st1" using d(2) by simp
  from s(2) obtain ms st2' where
    e: "extract_members st1 ?d ms = Inr st2'" "st2 = st2'\<lparr>trace := trace st2' @ [Extracted]\<rparr>"
    unfolding extractall_def by (auto simp: and_then_Inr_iff split: option.splits)
  have "wf_state st2'" by (rule wf_state_extract_members[OF e(1) w1 assms(3)])
  then have w2: "wf_state st2" using e(2) by simp
  have w3: "wf_state st3"
    using s(3) unfolding os_remove_def
    by (rule wf_state_fs_alter[OF _ w2 valid_parts_path_join_str[OF assms(3)] keeps_wf_remove])
  have w4: "wf_state st4" by (rule wf_state_process_data[OF s(4) w3])
  have w5: "wf_state st5"
    using s(5) unfolding os_remove_def
    by (rule wf_state_fs_alter[OF _ _ valid_parts_path_join_str[OF assms(3)] keeps_wf_remove])
       (use w4 in simp)
  show ?thesis using w5 s(6) by blast
qed

subsection \<open>After a download the manifest matches\<close>

lemma and_then_InrE:
  assumes "and_then m f = Inr y"
  obtains x where "m = Inr x" and "f x = Inr y"
  using assms by (cases m) simp_all

lemma alter_prefix_resolves:
  "alter False f (p @ r) n = Inr n' \<Longrightarrow> r \<noteq> [] \<Longrightarrow> \<exists>m. resolve n p = Inr m"
proof (induction p arbitrary: n n')
  case Nil
  then show ?case by simp
next
  case (Cons x ps)
  obtain y ys where y: "ps @ r = y # ys" using Cons.prems(2) by (cases "ps @ r") auto
  from Cons.prems(1) obtain es where es: "n = Dir es"
    by (cases n) (simp_all add: y)
  from Cons.prems(1) obtain m0 m1 where m: "map_of es x = Some m0" "alter False f (ps @ r) m0 = Inr m1"
    unfolding es by (auto simp: y split: option.splits sum.splits)
  from Cons.IH[OF m(2) Cons.prems(2)] obtain m' where "resolve m0 ps = Inr m'" by blast
  then show ?case using es m(1) by simp
qed

lemma complete_resolves:
  assumes "is_dataset_complete E self st = Inr True" "list_all valid_name (parts (data_folder self))"
  shows "\<exists>n. resolve (root st) (abs_parts st (data_folder self)) = Inr n"
proof -
  from assms(1) obtain new where
    c: "(case read_file st (manifest_file self) of
          Inl e \<Rightarrow> (if e = FileNotFoundError then Inr False else Inl e)
        | Inr body \<Rightarrow>
            (case json_load E body of
               None \<Rightarrow> Inl JSONDecodeError
             | Some old_md5 \<Rightarrow> Inr (dict_eq_json new old_md5))) = Inr True"
    unfolding is_dataset_complete_def and_then_Inr_iff by blast
  have "\<exists>body. read_file st (manifest_file self) = Inr body"
  proof (cases "read_file st (manifest_file self)")
    case (Inl e)
    then show ?thesis using c by (cases "e = FileNotFoundError") simp_all
  next
    case (Inr body)
    then show ?thesis by blast
  qed
  then obtain body where "read_file st (manifest_file self) = Inr body" by blast
  then obtain m where "resolve (root st) (abs_parts st (data_folder self) @ [''dataset.json'']) = Inr m"
    unfolding read_file_def abs_parts_manifest[OF assms(2)] by (auto split: sum.splits)
  then show ?thesis
    unfolding resolve_append by (cases "resolve (root st) (abs_parts st (data_folder self))") simp_all
qed

lemma save_all_md5_check:
  assumes "save_all_md5 E self st5 = Inr st'" "wf_state st5"
    and "list_all valid_name (parts (data_folder self))"
  shows "\<exists>n'. resolve (root st') (abs_parts st' (data_folder self)) = Inr n' \<and> wf_node n'
       \<and> calc_all_md5 E self st' = Inr (code_manifest E n')
       \<and> resolve n' [''dataset.json''] = Inr (File (json_dump E (code_manifest E n')))"
proof -
  let ?base = "abs_parts st5 (data_folder self)"
  from assms(1) obtain m where m: "calc_all_md5 E self st5 = Inr m"
      "write_file st5 (manifest_file self) (json_dump E m) = Inr st'"
    unfolding save_all_md5_def by (auto simp: and_then_Inr_iff)
  from m(2) obtain r where r: "alter False (write_op (json_dump E m)) (?base @ [''dataset.json'']) (root st5) = Inr r"
      "st' = st5\<lparr>root := r\<rparr>"
    unfolding write_file_def fs_alter_Inr abs_parts_manifest[OF assms(3)] by blast
  from alter_prefix_resolves[OF r(1)] obtain n5 where n5: "resolve (root st5) ?base = Inr n5" by blast
  have w5: "wf_node n5" by (rule resolve_wf[OF n5]) (use assms(2) in \<open>simp add: wf_state_def\<close>)
  have c5: "m = code_manifest E n5" using calc_all_md5_code_manifest[OF n5 w5, of E] m(1) by simp
  from alter_below[OF n5 r(1)] obtain n' where
    n': "alter False (write_op (json_dump E m)) [''dataset.json''] n5 = Inr n'" "resolve r ?base = Inr n'"
    by blast
  have wn: "wf_node n'"
    by (rule alter_wf[OF n'(1) w5 _ keeps_wf_write]) (simp add: valid_name_def)
  have t: "filter not_manifest_name (files_below [] n') = filter not_manifest_name (files_below [] n5)"
    by (rule write_manifest_name_untracked[OF n'(1)]) simp_all
  have cm: "code_manifest E n' = m" unfolding c5 by (simp add: code_manifest_def t)
  have rs: "resolve (root st') (abs_parts st' (data_folder self)) = Inr n'"
    using n'(2) r(2) by simp
  have "resolve n' [''dataset.json''] = Inr (File (json_dump E m))"
    by (rule resolve_after_write[OF n'(1)]) simp
  then show ?thesis using rs wn calc_all_md5_code_manifest[OF rs wn, of E] cm by auto
qed

lemma download_data_leaves_manifest:
  assumes "download_data E self st = Inr st'"
    and "wf_state st" and "list_all valid_name (parts (data_folder self))"
    and "\<And>m. calc_all_md5 E self st' = Inr m \<Longrightarrow>
           \<exists>old. json_load E (json_dump E m) = Some old \<and> dict_eq_json m old"
  shows "\<exists>n'. resolve (root st') (abs_parts st' (data_folder self)) = Inr n' \<and> wf_node n'
       \<and> check_manifest E n' = Inr True"
proof -
  let ?d = "data_folder self"
  from assms(1) obtain st1 where
    a: "(if \<not> os_path_exists st ?d then os_mkdir st ?d else Inr st) = Inr st1"
    and a2: "and_then (is_dataset_complete E self st1) (\<lambda>complete.
       if \<not> complete
       then and_then (api_authenticate E st1) (\<lambda>st2.
            and_then (if os_path_exists st2 (path_of_str ''data/train'')
                      then shutil_rmtree st2 (path_of_str ''data/train'') else Inr st2) (\<lambda>st3.
              fetch_and_convert E self st3))
       else Inr st1) = Inr st'"
    unfolding download_data_def by (rule and_then_InrE)
  from a2 obtain complete where
    b: "is_dataset_complete E self st1 = Inr complete"
    and c: "(if \<not> complete
       then and_then (api_authenticate E st1) (\<lambda>st2.
            and_then (if os_path_exists st2 (path_of_str ''data/train'')
                      then shutil_rmtree st2 (path_of_str ''data/train'') else Inr st2) (\<lambda>st3.
              fetch_and_convert E self st3))
       else Inr st1) = Inr st'"
    by (rule and_then_InrE)
  have w1: "wf_state st1"
  proof (cases "os_path_exists st ?d")
    case True
    then show ?thesis using a assms(2) by simp
  next
    case False
    then have "fs_alter False mkdir_op st ?d = Inr st1" using a by (simp add: os_mkdir_def)
    then show ?thesis by (rule wf_state_fs_alter[OF _ assms(2,3) keeps_wf_mkdir])
  qed
  show ?thesis
  proof (cases complete)
    case True
    then have e: "st' = st1" using c by simp
    have bt: "is_dataset_complete E self st1 = Inr True" using b True by simp
    from complete_resolves[OF bt assms(3)] obtain n where
      n: "resolve (root st1) (abs_parts st1 ?d) = Inr n" by blast
    have wn: "wf_node n" by (rule resolve_wf[OF n]) (use w1 in \<open>simp add: wf_state_def\<close>)
    have "check_manifest E n = Inr True"
      using is_dataset_complete_check[OF n wn assms(3), of E] bt by simp
    then show ?thesis using n wn e by auto
  next
    case False
    then have c': "and_then (api_authenticate E st1) (\<lambda>st2.
            and_then (if os_path_exists st2 (path_of_str ''data/train'')
                      then shutil_rmtree st2 (path_of_str ''data/train'') else Inr st2) (\<lambda>st3.
              fetch_and_convert E self st3)) = Inr st'"
      using c by simp
    from c' obtain st2 where s1: "api_authenticate E st1 = Inr st2"
      and c'': "and_then (if os_path_exists st2 (path_of_str ''data/train'')
                      then shutil_rmtree st2 (path_of_str ''data/train'') else Inr st2) (\<lambda>st3.
              fetch_and_convert E self st3) = Inr st'"
      by (rule and_then_InrE)
    from c'' obtain st3 where
      s2: "(if os_path_exists st2 (path_of_str ''data/train'')
           then shutil_rmtree st2 (path_of_str ''data/train'') else Inr st2) = Inr st3"
      and s3: "fetch_and_convert E self st3 = Inr st'"
      by (rule and_then_InrE)
    note s = s1 s2 s3
    have w2: "wf_state st2" using s(1) w1 by (auto simp: api_authenticate_def split: if_splits)
    have w3: "wf_state st3"
    proof (cases "os_path_exists st2 (path_of_str ''data/train'')")
      case True
      then have "fs_alter False rmtree_op st2 (path_of_str ''data/train'') = Inr st3"
        using s(2) by (simp add: shutil_rmtree_def)
      then show ?thesis by (rule wf_state_fs_alter[OF _ w2 valid_parts_path_of_str keeps_wf_rmtree])
    next
      case False
      then show ?thesis using s(2) w2 by simp
    qed
    from wf_state_fetch_and_convert[OF s(3) w3 assms(3)] obtain st5 where
      st5: "wf_state st5" "save_all_md5 E self st5 = Inr st'" by blast
    from save_all_md5_check[OF st5(2) st5(1) assms(3)] obtain n' where
      n': "resolve (root st') (abs_parts st' ?d) = Inr n'" "wf_node n'"
          "calc_all_md5 E self st' = Inr (code_manifest E n')"
          "resolve n' [''dataset.json''] = Inr (File (json_dump E (code_manifest E n')))"
      by blast
    from assms(4)[OF n'(3)] obtain old where
      "json_load E (json_dump E (code_manifest E n')) = Some old" "dict_eq_json (code_manifest E n') old"
      by blast
    then have "check_manifest E n' = Inr True" using n'(4) by (simp add: check_manifest_def)
    then show ?thesis using n'(1,2) by auto
  qed
qed

lemma download_data_hit:
  assumes "resolve (root st) (abs_parts st (data_folder self)) = Inr n" "wf_node n"
    and "list_all valid_name (parts (data_folder self))" "check_manifest E n = Inr True"
  shows "download_data E self st = Inr st"
proof -
  have "os_path_exists st (data_folder self)" using assms(1) by (simp add: os_path_exists_def)
  moreover have "is_dataset_complete E self st = Inr True"
    using is_dataset_complete_check[OF assms(1,2,3), of E] assms(4) by simp
  ultimately show ?thesis by (simp add: download_data_def)
qed

text \<open>
  C4. When a first invocation of \<open>download_data\<close> has returned (on a well-formed file
  system, and with a JSON library that reads the manifest back as it was written), the
  dataset is complete in the state it leaves, and a second invocation returns that very
  state: nothing is written, and the trace of calls to the Kaggle client, the zip reader
  and the converter is unchanged. The second invocation returns it even with a client,
  an archive reader and a converter that fail: it depends on the checksum and on the JSON
  reader only.
\<close>

theorem download_data_idempotent:
  fixes E :: "'f env"
  assumes "download_data E self st = Inr st'"
    and "wf_state st" and "list_all valid_name (parts (data_folder self))"
    and "\<And>m. calc_all_md5 E self st' = Inr m \<Longrightarrow>
           \<exists>old. json_load E (json_dump E m) = Some old \<and> dict_eq_json m old"
  shows "is_dataset_complete E self st' = Inr True
       \<and> download_data E self st' = Inr st'
       \<and> (\<forall>E' :: 'g env. md5_hexdigest E' = md5_hexdigest E \<and> json_load E' = json_load E \<longrightarrow>
             download_data E' self st' = Inr st')"
proof -
  from download_data_leaves_manifest[OF assms] obtain n' where
    n': "resolve (root st') (abs_parts st' (data_folder self)) = Inr n'" "wf_node n'"
        "check_manifest E n' = Inr True"
    by blast
  have a: "is_dataset_complete E self st' = Inr True"
    using is_dataset_complete_check[OF n'(1,2) assms(3), of E] n'(3) by simp
  have b: "download_data E' self st' = Inr st'"
    if e: "md5_hexdigest E' = md5_hexdigest E" "json_load E' = json_load E" for E' :: "'g env"
  proof (rule download_data_hit[OF n'(1,2) assms(3)])
    show "check_manifest E' n' = Inr True" unfolding check_manifest_cong[OF e] by (rule n'(3))
  qed
  have c: "download_data E self st' = Inr st'"
    by (rule download_data_hit[OF n'(1,2) assms(3) n'(3)])
  show ?thesis
  proof (intro conjI allI impI)
    show "is_dataset_complete E self st' = Inr True" by (rule a)
    show "download_data E self st' = Inr st'" by (rule c)
  next
    fix E' :: "'g env"
    assume "md5_hexdigest E' = md5_hexdigest E \<and> json_load E' = json_load E"
    then show "download_data E' self st' = Inr st'" using b by blast
  qed
qed
theorem download_data_idempotent_witness:
  "download_data small_env example_self fresh_state = Inr after_download
   \<and> is_dataset_complete small_env example_self after_download = Inr True
   \<and> download_data small_env example_self after_download = Inr after_download
   \<and> download_data (small_env\<lparr>kaggle_authenticate := False, kaggle_training_zip := None\<rparr>)
         example_self after_download = Inr after_download"
proof -
  let ?offline = "small_env\<lparr>kaggle_authenticate := False, kaggle_training_zip := None\<rparr>"
  have h1: "download_data small_env example_self fresh_state = Inr after_download" by code_simp
  have h2: "wf_state fresh_state" by code_simp
  have h3: "list_all valid_name (parts (data_folder example_self))" by code_simp
  have c: "calc_all_md5 small_env example_self after_download = Inr [(''notes/readme.txt'', ''ih'')]"
    by code_simp
  have j: "json_load small_env (json_dump small_env [(''notes/readme.txt'', ''ih'')]) =
      Some (JObj [(''notes/readme.txt'', JStr ''ih'')])"
    by code_simp
  have e: "dict_eq_json [(''notes/readme.txt'', ''ih'')] (JObj [(''notes/readme.txt'', JStr ''ih'')])"
    by code_simp
  have h4: "\<exists>old. json_load small_env (json_dump small_env m) = Some old \<and> dict_eq_json m old"
    if "calc_all_md5 small_env example_self after_download = Inr m" for m
  proof -
    have "m = [(''notes/readme.txt'', ''ih'')]" using that c by simp
    then show ?thesis using j e by blast
  qed
  have t: "is_dataset_complete small_env example_self after_download = Inr True
       \<and> download_data small_env example_self after_download = Inr after_download
       \<and> (\<forall>E' :: int env. md5_hexdigest E' = md5_hexdigest small_env \<and> json_load E' = json_load small_env \<longrightarrow>
             download_data E' example_self after_download = Inr after_download)"
  proof (rule download_data_idempotent[OF h1 h2 h3])
    fix m assume "calc_all_md5 small_env example_self after_download = Inr m"
    then show "\<exists>old. json_load small_env (json_dump small_env m) = Some old \<and> dict_eq_json m old"
      by (rule h4)
  qed
  have a: "is_dataset_complete small_env example_self after_download = Inr True"
    using t by (elim conjE)
  have b: "download_data small_env example_self after_download = Inr after_download"
    using t by (elim conjE)
  have "md5_hexdigest ?offline = md5_hexdigest small_env \<and> json_load ?offline = json_load small_env"
    by simp
  moreover have "\<forall>E' :: int env. md5_hexdigest E' = md5_hexdigest small_env \<and> json_load E' = json_load small_env \<longrightarrow>
             download_data E' example_self after_download = Inr after_download"
    using t by (elim conjE)
  ultimately have d: "download_data ?offline example_self after_download = Inr after_download"
    by blast
  show ?thesis using h1 a b d by (intro conjI)
qed

subsection \<open>Files named like the manifest\<close>

lemma alter_prefix_Dir:
  assumes "alter False f (p @ r) n = Inr n'" "r \<noteq> []"
  shows "(\<exists>es. resolve n p = Inr (Dir es)) \<and> (\<exists>es'. resolve n' p = Inr (Dir es'))"
proof -
  from alter_prefix_resolves[OF assms] obtain m where m: "resolve n p = Inr m" by blast
  from alter_below[OF m assms] obtain m' where
    m': "alter False f r m = Inr m'" "resolve n' p = Inr m'" by blast
  from alter_Dir[OF m'(1) assms(2)] show ?thesis using m m'(2) by auto
qed

lemma write_below_data_folder:
  assumes "resolve (root st) (abs_parts st (data_folder self)) = Inr n" and "wf_node n"
    and "list_all valid_name q" and "q \<noteq> []"
    and "write_file st (path_join (data_folder self) (Path False q)) c = Inr st'"
  shows "\<exists>n'. alter False (write_op c) q n = Inr n' \<and> wf_node n'
       \<and> resolve (root st') (abs_parts st' (data_folder self)) = Inr n'"
proof -
  from assms(5) obtain r where
    r: "alter False (write_op c) (abs_parts st (data_folder self) @ q) (root st) = Inr r"
       "st' = st\<lparr>root := r\<rparr>"
    unfolding write_file_def fs_alter_Inr abs_parts_join by blast
  from alter_below[OF assms(1) r(1) assms(4)] obtain n' where
    n': "alter False (write_op c) q n = Inr n'" "resolve r (abs_parts st (data_folder self)) = Inr n'"
    by blast
  have "wf_node n'" by (rule alter_wf[OF n'(1) assms(2,3) keeps_wf_write])
  then show ?thesis using n' r(2) by auto
qed

lemma check_manifest_after_nested_write:
  assumes "alter False (write_op c) (rel @ [''dataset.json'']) n = Inr n'" and "rel \<noteq> []"
  shows "check_manifest E n' = check_manifest E n"
proof -
  have t: "filter not_manifest_name (files_below [] n') = filter not_manifest_name (files_below [] n)"
    by (rule write_manifest_name_untracked[OF assms(1)]) simp_all
  have cm: "code_manifest E n' = code_manifest E n" by (simp add: code_manifest_def t)
  show ?thesis
  proof (cases "hd rel = ''dataset.json''")
    case True
    then obtain rest where rel: "rel = ''dataset.json'' # rest" using assms(2) by (cases rel) auto
    have "alter False (write_op c) ([''dataset.json''] @ (rest @ [''dataset.json''])) n = Inr n'"
      using assms(1) rel by simp
    from alter_prefix_Dir[OF this] obtain es es' where
      "resolve n [''dataset.json''] = Inr (Dir es)" "resolve n' [''dataset.json''] = Inr (Dir es')"
      by auto
    then show ?thesis by (simp add: check_manifest_def)
  next
    case False
    then have "\<not> prefix (rel @ [''dataset.json'']) [''dataset.json'']"
      "\<not> prefix [''dataset.json''] (rel @ [''dataset.json''])"
      using assms(2) by (cases rel; simp)+
    from alter_frame[OF assms(1) this] have r: "resolve n' [''dataset.json''] = resolve n [''dataset.json'']" .
    show ?thesis unfolding check_manifest_def cm r by (rule refl)
  qed
qed

text \<open>
  C9. On a well-formed data folder, the manifest \<open>calc_all_md5\<close> computes is the dict
  of the checksums of the files whose name is not \<^verbatim>\<open>dataset.json\<close>, at any depth; and
  writing a file of that name in a subdirectory \<open>rel\<close> of the data folder, new or not,
  with any content, changes neither the manifest computed nor the result of the check.
\<close>

theorem nested_manifest_names_ignored:
  assumes "resolve (root st) (abs_parts st (data_folder self)) = Inr n" and "wf_node n"
    and "list_all valid_name (parts (data_folder self))"
    and "list_all valid_name rel" and "rel \<noteq> []"
    and "write_file st (path_join (data_folder self) (Path False (rel @ [''dataset.json'']))) c = Inr st'"
  shows "calc_all_md5 E self st =
           Inr (checksums E (filter (\<lambda>f. last (fst f) \<noteq> ''dataset.json'') (files_below [] n)))
       \<and> calc_all_md5 E self st' = calc_all_md5 E self st
       \<and> is_dataset_complete E self st' = is_dataset_complete E self st"
proof -
  have v: "list_all valid_name (rel @ [''dataset.json''])" using assms(4) by (simp add: valid_name_def)
  from write_below_data_folder[OF assms(1,2) v _ assms(6)] obtain n' where
    n': "alter False (write_op c) (rel @ [''dataset.json'']) n = Inr n'" "wf_node n'"
        "resolve (root st') (abs_parts st' (data_folder self)) = Inr n'"
    by auto
  have t: "filter not_manifest_name (files_below [] n') = filter not_manifest_name (files_below [] n)"
    by (rule write_manifest_name_untracked[OF n'(1)]) simp_all
  have a: "calc_all_md5 E self st = Inr (code_manifest E n)"
    by (rule calc_all_md5_code_manifest[OF assms(1,2)])
  have b: "calc_all_md5 E self st' = Inr (code_manifest E n)"
    using calc_all_md5_code_manifest[OF n'(3) n'(2), of E] by (simp add: code_manifest_def t)
  have c: "is_dataset_complete E self st' = is_dataset_complete E self st"
    unfolding is_dataset_complete_check[OF n'(3) n'(2) assms(3)]
      is_dataset_complete_check[OF assms(1,2,3)]
    by (rule check_manifest_after_nested_write[OF n'(1) assms(5)])
  show ?thesis using a b c by (simp add: code_manifest_def)
qed

theorem nested_manifest_names_ignored_witness:
  "calc_all_md5 example_env example_self nested_manifest =
     Inr [(''./img_0.npy'', ''0i''), (''./keypoints_0.npy'', ''0k'')]
   \<and> write_file nested_manifest (Path True [''home'', ''ws'', ''data'', ''sub'', ''dataset.json'']) ''changed'' =
       Inr (nested_manifest\<lparr>root := Dir [(''home'', Dir [(''ws'', Dir [(''data'', Dir
          [(''img_0.npy'', File ''i0''), (''keypoints_0.npy'', File ''k0''),
           (''sub'', Dir [(''dataset.json'', File ''changed'')]),
           (''dataset.json'', File ''./img_0.npy=0i;./keypoints_0.npy=0k;'')])])])]\<rparr>)
   \<and> is_dataset_complete example_env example_self
         (nested_manifest\<lparr>root := Dir [(''home'', Dir [(''ws'', Dir [(''data'', Dir
          [(''img_0.npy'', File ''i0''), (''keypoints_0.npy'', File ''k0''),
           (''sub'', Dir [(''dataset.json'', File ''changed'')]),
           (''dataset.json'', File ''./img_0.npy=0i;./keypoints_0.npy=0k;'')])])])]\<rparr>) = Inr True"
proof -
  let ?st' = "nested_manifest\<lparr>root := Dir [(''home'', Dir [(''ws'', Dir [(''data'', Dir
          [(''img_0.npy'', File ''i0''), (''keypoints_0.npy'', File ''k0''),
           (''sub'', Dir [(''dataset.json'', File ''changed'')]),
           (''dataset.json'', File ''./img_0.npy=0i;./keypoints_0.npy=0k;'')])])])]\<rparr>"
  have h1: "resolve (root nested_manifest) (abs_parts nested_manifest (data_folder example_self)) = Inr nested_data"
    by code_simp
  have h2: "wf_node nested_data" by code_simp
  have h3: "list_all valid_name (parts (data_folder example_self))" by code_simp
  have h4: "list_all valid_name [''sub'']" by code_simp
  have h5: "[''sub''] \<noteq> []" by simp
  have p: "path_join (data_folder example_self) (Path False ([''sub''] @ [''dataset.json''])) =
      Path True [''home'', ''ws'', ''data'', ''sub'', ''dataset.json'']"
    by code_simp
  have w: "write_file nested_manifest (Path True [''home'', ''ws'', ''data'', ''sub'', ''dataset.json'']) ''changed'' = Inr ?st'"
    by code_simp
  have h6: "write_file nested_manifest
      (path_join (data_folder example_self) (Path False ([''sub''] @ [''dataset.json'']))) ''changed'' = Inr ?st'"
    unfolding p by (rule w)
  note t = nested_manifest_names_ignored[OF h1 h2 h3 h4 h5 h6, of example_env]
  have f: "checksums example_env (filter (\<lambda>f. last (fst f) \<noteq> ''dataset.json'') (files_below [] nested_data)) =
      [(''./img_0.npy'', ''0i''), (''./keypoints_0.npy'', ''0k'')]"
    by code_simp
  have o: "is_dataset_complete example_env example_self nested_manifest = Inr True" by code_simp
  have a: "calc_all_md5 example_env example_self nested_manifest =
     Inr [(''./img_0.npy'', ''0i''), (''./keypoints_0.npy'', ''0k'')]"
    using t f by simp
  have b: "is_dataset_complete example_env example_self ?st' = Inr True"
    using t o by simp
  show ?thesis using a w b by (intro conjI)
qed

end
